theory Spec2Isabelle
  imports Main "HOL-Library.AList"
begin

section \<open>JavaScript values and objects\<close>

text \<open>
  The fields the validator reads and writes hold either a string or \<open>undefined\<close>.
  An object literal is the list of its own properties in insertion order
  (\<open>Object.entries\<close> order); assigning to an existing key keeps its position.
\<close>

datatype jsval = Undefined | Str string

type_synonym jsobj = "(string \<times> jsval) list"

fun truthy :: "jsval \<Rightarrow> bool" where
  "truthy Undefined = False"
| "truthy (Str s) = (s \<noteq> [])"

text \<open>\<open>a || b\<close>\<close>

definition js_or :: "jsval \<Rightarrow> jsval \<Rightarrow> jsval" where
  "js_or a b = (if truthy a then a else b)"

text \<open>String conversion, as in \<open>'' + v\<close> and in the value a replacer function returns.\<close>

fun to_string :: "jsval \<Rightarrow> string" where
  "to_string Undefined = ''undefined''"
| "to_string (Str s) = s"

definition hasOwnProperty :: "jsobj \<Rightarrow> string \<Rightarrow> bool" where
  "hasOwnProperty obj k = (map_of obj k \<noteq> None)"

definition get_prop :: "jsobj \<Rightarrow> string \<Rightarrow> jsval" where
  "get_prop obj k = (case map_of obj k of None \<Rightarrow> Undefined | Some v \<Rightarrow> v)"

definition set_prop :: "jsobj \<Rightarrow> string \<Rightarrow> jsval \<Rightarrow> jsobj" where
  "set_prop obj k v = AList.update k v obj"

text \<open>
  The exceptions of the validator: \<open>errors.InvalidDataError\<close>,
  \<open>errors.ShexValidationError\<close> (with its message), and the runtime's
  \<open>TypeError\<close> (a method call on \<open>undefined\<close>).
\<close>

datatype error = InvalidDataError | ShexValidationError string | TypeError

section \<open>helpers/utils.js: formatString\<close>

text \<open>
  \<^verbatim>\<open>s.replace(/{(.+)}/g, replacer)\<close>. The dot matches every character but a line
  terminator, and \<open>.+\<close> is greedy: at an opening brace the group runs to the last
  closing brace of the line that leaves it at least one character. A match is replaced
  by what \<open>replacer\<close> returns and the scan goes on behind it; where no match starts
  the character is copied.
\<close>

definition line_terminator :: "char \<Rightarrow> bool" where
  "line_terminator c = (c = CHR 0x0A \<or> c = CHR 0x0D)"

definition dot_run :: "string \<Rightarrow> string" where
  "dot_run cs = takeWhile (\<lambda>c. \<not> line_terminator c) cs"

text \<open>The greatest index \<open>j \<ge> 1\<close> of \<open>run\<close> whose character satisfies \<open>P\<close>.\<close>

definition last_index :: "(char \<Rightarrow> bool) \<Rightarrow> string \<Rightarrow> nat option" where
  "last_index P run =
     (case filter (\<lambda>j. P (run ! j)) (rev [1..<length run]) of
        [] \<Rightarrow> None
      | j # _ \<Rightarrow> Some j)"

definition replacer :: "jsobj \<Rightarrow> string \<Rightarrow> string \<Rightarrow> string" where
  "replacer args match val =
     (if hasOwnProperty args val then to_string (js_or (get_prop args val) (Str []))
      else match)"

fun format_scan :: "string \<Rightarrow> jsobj \<Rightarrow> string" where
  "format_scan [] args = []"
| "format_scan (c # cs) args =
     (if c = CHR ''{'' then
        (case last_index (\<lambda>d. d = CHR ''}'') (dot_run cs) of
           Some j \<Rightarrow> replacer args (c # take (Suc j) cs) (take j cs)
                      @ format_scan (drop (Suc j) cs) args
         | None \<Rightarrow> c # format_scan cs args)
      else c # format_scan cs args)"

text \<open>The template comes from a table; on a missing entry \<open>s.replace\<close> throws.\<close>

definition formatString :: "jsval \<Rightarrow> jsobj \<Rightarrow> error + string" where
  "formatString s args =
     (case s of Undefined \<Rightarrow> Inl TypeError | Str t \<Rightarrow> Inr (format_scan t args))"

section \<open>helpers/utils.js: removeUrls\<close>

text \<open>
  \<^verbatim>\<open>/https?:\/\/[^\s]+[/#]/g\<close>. Strings are lists of code units below 256; the
  white space of \<open>\s\<close> among them is tab, line feed, vertical tab, form feed,
  carriage return, space and the no-break space.
\<close>

definition js_space :: "char \<Rightarrow> bool" where
  "js_space c = (c \<in> {CHR 0x09, CHR 0x0A, CHR 0x0B, CHR 0x0C, CHR 0x0D, CHR 0x20, CHR 0xA0})"

text \<open>
  \<open>[^\s]+[/#]\<close> at the head of \<open>cs\<close>: the greedy run of non-space characters,
  given back to its last slash or hash that leaves the run one character. The result is
  the number of characters matched.
\<close>

definition url_tail :: "string \<Rightarrow> nat option" where
  "url_tail cs =
     (case last_index (\<lambda>d. d = CHR ''/'' \<or> d = CHR ''#'') (takeWhile (\<lambda>c. \<not> js_space c) cs) of
        None \<Rightarrow> None
      | Some j \<Rightarrow> Some (Suc j))"

text \<open>The length of the match of the whole pattern at the head of \<open>cs\<close>, if there is one.\<close>

definition url_match :: "string \<Rightarrow> nat option" where
  "url_match cs =
     (if take 8 cs = ''https://'' then map_option (\<lambda>k. 8 + k) (url_tail (drop 8 cs))
      else if take 7 cs = ''http://'' then map_option (\<lambda>k. 7 + k) (url_tail (drop 7 cs))
      else None)"

text \<open>\<open>text.match(urlRegexp)\<close> is truthy when the pattern matches somewhere.\<close>

fun has_url :: "string \<Rightarrow> bool" where
  "has_url [] = False"
| "has_url (c # cs) = (url_match (c # cs) \<noteq> None \<or> has_url cs)"

text \<open>
  \<open>text.replace(urlRegexp, '')\<close>: every match, left to right, is cut out. A match of
  length \<open>k\<close> at the head \<open>c # cs\<close> leaves \<open>drop (k - 1) cs\<close>.
\<close>

fun replace_urls :: "string \<Rightarrow> string" where
  "replace_urls [] = []"
| "replace_urls (c # cs) =
     (case url_match (c # cs) of
        Some k \<Rightarrow> replace_urls (drop (k - 1) cs)
      | None \<Rightarrow> c # replace_urls cs)"

lemma replace_urls_length: "length (replace_urls cs) \<le> length cs"
proof (induction cs rule: replace_urls.induct)
  case 1
  show ?case by simp
next
  case (2 c cs)
  show ?case
  proof (cases "url_match (c # cs)")
    case None
    with 2 show ?thesis by simp
  next
    case (Some k)
    with 2 have "length (replace_urls (drop (k - 1) cs)) \<le> length cs - (k - 1)" by simp
    with Some show ?thesis by simp
  qed
qed

lemma replace_urls_shorter: "has_url cs \<Longrightarrow> length (replace_urls cs) < length cs"
proof (induction cs rule: replace_urls.induct)
  case 1
  then show ?case by simp
next
  case (2 c cs)
  show ?case
  proof (cases "url_match (c # cs)")
    case None
    with 2 show ?thesis by simp
  next
    case (Some k)
    have "length (replace_urls (drop (k - 1) cs)) \<le> length cs - (k - 1)"
      using replace_urls_length [of "drop (k - 1) cs"] by simp
    with Some show ?thesis by simp
  qed
qed

function removeUrls :: "string \<Rightarrow> string" where
  "removeUrls text = (if has_url text then removeUrls (replace_urls text) else text)"
  by pat_completeness auto
termination
  by (relation "measure length") (auto simp: replace_urls_shorter)

declare removeUrls.simps [simp del]

section \<open>helpers/utils.js: namespace, uniqueBy\<close>

definition namespace :: "string \<Rightarrow> string \<Rightarrow> string" where
  "namespace base prop = base @ prop"

definition rdf :: "string \<Rightarrow> string" where
  "rdf = namespace ''http://www.w3.org/1999/02/22-rdf-syntax-ns#''"

definition rdfs :: "string \<Rightarrow> string" where
  "rdfs = namespace ''http://www.w3.org/2000/01/rdf-schema#''"

definition schema :: "string \<Rightarrow> string" where
  "schema = namespace ''http://schema.org/''"

definition shex :: "string \<Rightarrow> string" where
  "shex = namespace ''http://schema.org/shex#''"

text \<open>\<open>keys.forEach(key => val += item[key])\<close>\<close>

definition uniqueBy_val :: "jsobj \<Rightarrow> string list \<Rightarrow> string" where
  "uniqueBy_val item keys = concat (map (\<lambda>key. to_string (get_prop item key)) keys)"

text \<open>
  The filter of \<open>uniqueBy\<close>, with the own properties of the object \<open>seen\<close> as a
  list. The assignment \<open>seen[val] = true\<close> adds the own property \<open>val\<close>, except
  for \<open>__proto__\<close>, whose assignment of a boolean leaves the object as it is; the
  item is kept either way. Once \<open>hasOwnProperty\<close> is an own property of \<open>seen\<close>,
  \<open>seen.hasOwnProperty\<close> is \<open>true\<close>, no function, and the call of it for the
  next item throws a \<open>TypeError\<close>.
\<close>

fun uniqueBy_filter :: "string list \<Rightarrow> jsobj list \<Rightarrow> string list \<Rightarrow> error + jsobj list" where
  "uniqueBy_filter seen [] keys = Inr []"
| "uniqueBy_filter seen (item # items) keys =
     (if ''hasOwnProperty'' \<in> set seen then Inl TypeError
      else if uniqueBy_val item keys \<in> set seen then uniqueBy_filter seen items keys
      else (case uniqueBy_filter
                   (if uniqueBy_val item keys = ''__proto__'' then seen
                    else uniqueBy_val item keys # seen) items keys of
              Inl err \<Rightarrow> Inl err
            | Inr kept \<Rightarrow> Inr (item # kept)))"

definition uniqueBy :: "jsobj list \<Rightarrow> string list \<Rightarrow> error + jsobj list" where
  "uniqueBy items keys = uniqueBy_filter [] items keys"

section \<open>RDF terms and the N3 store\<close>

text \<open>
  A term as the code reads it: \<open>termType\<close>, \<open>id\<close> and \<open>value\<close>
  (types/schemarama-structured-data.d.ts).
\<close>

datatype term_type = NamedNode | BlankNode | Literal

record rdfterm =
  termType :: term_type
  tid :: string
  tvalue :: string

record quad =
  subject :: rdfterm
  predicate :: rdfterm
  object :: rdfterm

text \<open>
  \<open>n3.Store\<close> is a library the code calls. The model is the list of the store's
  quads in the order \<open>getQuads()\<close> enumerates them. A pattern position is
  \<open>undefined\<close> (\<open>None\<close>) or given as an id, which is also what the store makes of
  a term passed there; the store matches by id, and answers in its order.
\<close>

type_synonym store = "quad list"

definition getQuads :: "store \<Rightarrow> string option \<Rightarrow> string option \<Rightarrow> string option \<Rightarrow> quad list" where
  "getQuads st s p ob =
     filter (\<lambda>q. (case s of None \<Rightarrow> True | Some i \<Rightarrow> tid (subject q) = i)
               \<and> (case p of None \<Rightarrow> True | Some i \<Rightarrow> tid (predicate q) = i)
               \<and> (case ob of None \<Rightarrow> True | Some i \<Rightarrow> tid (object q) = i)) st"

definition getSubjects :: "store \<Rightarrow> rdfterm list" where
  "getSubjects st = map subject st"

text \<open>
  The store holds a quad once: adding a quad it has leaves it as it is. The model puts
  a new quad last. \<open>n3\<close> enumerates a store by the numbers it gives to the terms as
  they come, which can be another order of the same quads; the statements below that
  hold for all stores do not rest on the order of the quads of a store built with
  \<open>addQuad\<close>.
\<close>

definition addQuad :: "store \<Rightarrow> quad \<Rightarrow> store" where
  "addQuad st q = (if q \<in> set st then st else st @ [q])"

text \<open>\<open>[...new Set(xs)]\<close>: the elements in the order of their first occurrence.\<close>

fun set_spread :: "'a list \<Rightarrow> 'a list \<Rightarrow> 'a list" where
  "set_spread acc [] = acc"
| "set_spread acc (x # xs) = set_spread (if x \<in> set acc then acc else acc @ [x]) xs"

text \<open>
  A \<open>Map\<close>: its entries in insertion order; \<open>set\<close> on a key it has keeps the
  key's place.
\<close>

type_synonym ('k, 'v) jsmap = "('k \<times> 'v) list"

definition map_set :: "'k \<Rightarrow> 'v \<Rightarrow> ('k, 'v) jsmap \<Rightarrow> ('k, 'v) jsmap" where
  "map_set k v m = AList.update k v m"

definition map_get :: "('k, 'v) jsmap \<Rightarrow> 'k \<Rightarrow> 'v option" where
  "map_get m k = map_of m k"

section \<open>helpers/utils.js: stronglyConnectedComponents\<close>

text \<open>
  The two closures recurse as deep as the graph is. Each takes a bound \<open>n\<close> on the
  depth of the recursion and gives \<open>None\<close> when the bound is used up. The state they
  share (\<open>used\<close>, \<open>order\<close>, \<open>component\<close>) is passed and returned.
\<close>

fun forwardDfs ::
    "nat \<Rightarrow> store \<Rightarrow> string list \<Rightarrow> string
       \<Rightarrow> (string, bool) jsmap \<times> string list \<Rightarrow> ((string, bool) jsmap \<times> string list) option"
and forwardDfs_quads ::
    "nat \<Rightarrow> store \<Rightarrow> string list \<Rightarrow> quad list
       \<Rightarrow> (string, bool) jsmap \<times> string list \<Rightarrow> ((string, bool) jsmap \<times> string list) option"
where
  "forwardDfs 0 st nodes vertex s = None"
| "forwardDfs (Suc n) st nodes vertex s =
     (case forwardDfs_quads n st nodes (getQuads st (Some vertex) None None)
             (map_set vertex True (fst s), snd s) of
        None \<Rightarrow> None
      | Some s' \<Rightarrow> Some (fst s', snd s' @ [vertex]))"
| "forwardDfs_quads n st nodes [] s = Some s"
| "forwardDfs_quads n st nodes (q # qs) s =
     (if termType (object q) \<noteq> Literal \<and> tid (object q) \<in> set nodes
         \<and> map_get (fst s) (tid (object q)) \<noteq> Some True
      then (case forwardDfs n st nodes (tid (object q)) s of
              None \<Rightarrow> None
            | Some s' \<Rightarrow> forwardDfs_quads n st nodes qs s')
      else forwardDfs_quads n st nodes qs s)"

fun backwardDfs ::
    "nat \<Rightarrow> store \<Rightarrow> string
       \<Rightarrow> (string, bool) jsmap \<times> string list \<Rightarrow> ((string, bool) jsmap \<times> string list) option"
and backwardDfs_quads ::
    "nat \<Rightarrow> store \<Rightarrow> quad list
       \<Rightarrow> (string, bool) jsmap \<times> string list \<Rightarrow> ((string, bool) jsmap \<times> string list) option"
where
  "backwardDfs 0 st vertex s = None"
| "backwardDfs (Suc n) st vertex s =
     backwardDfs_quads n st (getQuads st None None (Some vertex))
       (map_set vertex True (fst s), snd s @ [vertex])"
| "backwardDfs_quads n st [] s = Some s"
| "backwardDfs_quads n st (q # qs) s =
     (if map_get (fst s) (tid (subject q)) \<noteq> Some True
      then (case backwardDfs n st (tid (subject q)) s of
              None \<Rightarrow> None
            | Some s' \<Rightarrow> backwardDfs_quads n st qs s')
      else backwardDfs_quads n st qs s)"

text \<open>\<open>for (const node of nodes) used.set(node, false)\<close>\<close>

definition reset_used :: "string list \<Rightarrow> (string, bool) jsmap \<Rightarrow> (string, bool) jsmap" where
  "reset_used nodes used = fold (\<lambda>node u. map_set node False u) nodes used"

text \<open>\<open>for (const node of nodes) if (!used.get(node)) forwardDfs(node)\<close>\<close>

fun forward_pass ::
    "nat \<Rightarrow> store \<Rightarrow> string list \<Rightarrow> string list
       \<Rightarrow> (string, bool) jsmap \<times> string list \<Rightarrow> ((string, bool) jsmap \<times> string list) option"
where
  "forward_pass n st nodes [] s = Some s"
| "forward_pass n st nodes (node # rest) s =
     (if map_get (fst s) node \<noteq> Some True
      then (case forwardDfs n st nodes node s of
              None \<Rightarrow> None
            | Some s' \<Rightarrow> forward_pass n st nodes rest s')
      else forward_pass n st nodes rest s)"

text \<open>
  The second loop, over \<open>i = 0, ..., nodes.length - 1\<close>, reads
  \<open>order[nodes.length - 1 - i]\<close>. The state is \<open>used\<close>, the map
  \<open>components\<close> and \<open>componentIdx\<close>; \<open>component\<close> is empty at the start of
  every round. The model has no vertex for a read behind the end of \<open>order\<close> and
  gives \<open>None\<close> there; \<open>order\<close> has the length of \<open>nodes\<close> on every run.
\<close>

fun backward_pass ::
    "nat \<Rightarrow> store \<Rightarrow> string list \<Rightarrow> string list \<Rightarrow> nat list
       \<Rightarrow> (string, bool) jsmap \<times> (string, nat) jsmap \<times> nat
       \<Rightarrow> ((string, bool) jsmap \<times> (string, nat) jsmap \<times> nat) option"
where
  "backward_pass n st nodes order [] s = Some s"
| "backward_pass n st nodes order (i # is) (used, components, componentIdx) =
     (if length nodes - 1 - i < length order then
        (let node = order ! (length nodes - 1 - i) in
         if map_get used node \<noteq> Some True
         then (case backwardDfs n st node (used, []) of
                 None \<Rightarrow> None
               | Some (used', component) \<Rightarrow>
                   backward_pass n st nodes order is
                     (used',
                      fold (\<lambda>x cs. map_set x componentIdx cs) component components,
                      componentIdx + 1))
         else backward_pass n st nodes order is (used, components, componentIdx))
      else None)"

definition stronglyConnectedComponents :: "nat \<Rightarrow> store \<Rightarrow> (string, nat) jsmap option" where
  "stronglyConnectedComponents n st =
     (let nodes = set_spread [] (map tid (getSubjects st)) in
      case forward_pass n st nodes nodes (reset_used nodes [], []) of
        None \<Rightarrow> None
      | Some (used, order) \<Rightarrow>
          (case backward_pass n st nodes order [0..<length nodes]
                  (reset_used nodes used, [], 0) of
             None \<Rightarrow> None
           | Some (used', components, componentIdx) \<Rightarrow> Some components))"

section \<open>helpers/utils.js: quadsToShapes and getShape\<close>

text \<open>
  \<open>getShape\<close> is called with a string (a key of \<open>components\<close>) by
  \<open>quadsToShapes\<close> and with a term (\<open>quad.object\<close>) by itself.
\<close>

datatype shape_key = KeyString string | KeyTerm rdfterm

text \<open>\<open>id.id\<close>: a string has no such property.\<close>

fun key_id :: "shape_key \<Rightarrow> jsval" where
  "key_id (KeyString s) = Undefined"
| "key_id (KeyTerm t) = Str (tid t)"

text \<open>The id the store looks for when it is given the key as a subject.\<close>

fun key_subject :: "shape_key \<Rightarrow> string" where
  "key_subject (KeyString s) = s"
| "key_subject (KeyTerm t) = tid t"

text \<open>
  \<open>shapes.get(key)\<close>: the keys of the map \<open>shapes\<close> are strings, and a \<open>Map\<close>
  compares keys by identity, so a term is never one of its keys. A value of the map is a
  store or \<open>undefined\<close>.
\<close>

fun shapes_get :: "(string, store option) jsmap \<Rightarrow> shape_key \<Rightarrow> store option" where
  "shapes_get shapes (KeyString s) = (case map_get shapes s of None \<Rightarrow> None | Some v \<Rightarrow> v)"
| "shapes_get shapes (KeyTerm t) = None"

fun getShape ::
    "nat \<Rightarrow> shape_key \<Rightarrow> store \<Rightarrow> (string, store option) jsmap \<Rightarrow> jsval list
       \<Rightarrow> (store option \<times> jsval list) option"
and getShape_quads ::
    "nat \<Rightarrow> quad list \<Rightarrow> store \<Rightarrow> (string, store option) jsmap \<Rightarrow> quad list \<times> jsval list
       \<Rightarrow> (quad list \<times> jsval list) option"
where
  "getShape 0 k st shapes parsed = None"
| "getShape (Suc n) k st shapes parsed =
     (if length (getQuads st (Some (key_subject k)) None None) = 0
      then Some (None, parsed @ [key_id k])
      else (case getShape_quads n (getQuads st (Some (key_subject k)) None None) st shapes
                   (getQuads st (Some (key_subject k)) None None, parsed @ [key_id k]) of
              None \<Rightarrow> None
            | Some (shapeQuads, parsed') \<Rightarrow>
                Some (Some (fold (\<lambda>q shapeStore. addQuad shapeStore q) shapeQuads []), parsed')))"
| "getShape_quads n [] st shapes s = Some s"
| "getShape_quads n (q # qs) st shapes s =
     (if termType (object q) \<noteq> Literal \<and> Str (tid (object q)) \<in> set (snd s)
      then getShape_quads n qs st shapes s
      else (case (case shapes_get shapes (KeyTerm (object q)) of
                    Some nested \<Rightarrow> Some (Some nested, snd s)
                  | None \<Rightarrow> getShape n (KeyTerm (object q)) st shapes (snd s)) of
              None \<Rightarrow> None
            | Some (nestedStore, parsed') \<Rightarrow>
                getShape_quads n qs st shapes
                  (case nestedStore of
                     None \<Rightarrow> (fst s, parsed')
                   | Some nested \<Rightarrow>
                       if length (getQuads nested None None None) > 0
                       then (fst s @ getQuads nested None None None, parsed')
                       else (fst s, parsed'))))"

text \<open>The first loop of \<open>quadsToShapes\<close>: the set \<open>notRoot\<close> of component numbers.\<close>

definition notRoot_of :: "store \<Rightarrow> (string, nat) jsmap \<Rightarrow> nat list" where
  "notRoot_of st components =
     fold (\<lambda>q notRoot.
             if termType (object q) \<noteq> Literal
                \<and> map_get components (tid (subject q)) \<noteq> None
                \<and> map_get components (tid (object q)) \<noteq> None
                \<and> map_get components (tid (subject q)) \<noteq> map_get components (tid (object q))
             then (case map_get components (tid (object q)) of
                     Some c \<Rightarrow> if c \<in> set notRoot then notRoot else notRoot @ [c]
                   | None \<Rightarrow> notRoot)
             else notRoot)
          (getQuads st None None None) []"

text \<open>The second loop, over \<open>components.entries()\<close>.\<close>

fun shapes_loop ::
    "nat \<Rightarrow> store \<Rightarrow> (string \<times> nat) list \<Rightarrow> nat list \<times> (string, store option) jsmap
       \<Rightarrow> (string, store option) jsmap option"
where
  "shapes_loop n st [] s = Some (snd s)"
| "shapes_loop n st ((node, component) # rest) s =
     (if component \<notin> set (fst s)
      then (case getShape n (KeyString node) st (snd s) [] of
              None \<Rightarrow> None
            | Some (shape, parsed) \<Rightarrow>
                shapes_loop n st rest (fst s @ [component], map_set node shape (snd s)))
      else shapes_loop n st rest s)"

definition quadsToShapes :: "nat \<Rightarrow> store \<Rightarrow> (string, store option) jsmap option" where
  "quadsToShapes n st =
     (case stronglyConnectedComponents n st of
        None \<Rightarrow> None
      | Some components \<Rightarrow> shapes_loop n st components (notRoot_of st components, []))"

section \<open>validator.js: the report of shex.js and its simplification\<close>

text \<open>
  \<open>Report = ReportItem | Array<ReportItem>\<close> (types/shexjs/core.d.ts). The fields of
  an item, in the order of the constructor: \<open>type\<close>, \<open>property\<close>, \<open>node\<close>,
  \<open>shape\<close>, \<open>unexpectedTriples\<close> (the \<open>predicate\<close> of each),
  \<open>triple\<close> (its \<open>subject\<close>), \<open>ctx\<close> (its \<open>predicate\<close>), \<open>code\<close>,
  \<open>constraint\<close> (its \<open>predicate\<close>) and \<open>errors\<close>. An optional field is an
  option.
\<close>

datatype report =
    Arr "report list"
  | Item string "string option" "string option" "string option"
         "string option list option" "string option option" "string option option"
         "string option" "string option option" report

fun opt_val :: "string option \<Rightarrow> jsval" where
  "opt_val None = Undefined"
| "opt_val (Some s) = Str s"

text \<open>\<open>o && o.field\<close> for an optional object with one optional field.\<close>

fun and_field :: "string option option \<Rightarrow> jsval" where
  "and_field None = Undefined"
| "and_field (Some f) = opt_val f"

text \<open>STEP 3 of \<open>simplify\<close>: one failure for each unexpected triple.\<close>

fun closed_shape_failures ::
    "jsobj \<Rightarrow> string \<Rightarrow> string option list \<Rightarrow> jsval \<Rightarrow> jsval \<Rightarrow> jsobj list \<Rightarrow> error + jsobj list"
where
  "closed_shape_failures msgs ty [] parentNode parentShape failures = Inr failures"
| "closed_shape_failures msgs ty (p # ps) parentNode parentShape failures =
     (case formatString (get_prop msgs ty) [(''property'', js_or (opt_val p) (Str []))] of
        Inl e \<Rightarrow> Inl e
      | Inr m \<Rightarrow>
          closed_shape_failures msgs ty ps parentNode parentShape
            (failures @
             [[(''type'', Str ty), (''property'', opt_val p), (''message'', Str m),
               (''node'', js_or parentNode (Str [])), (''shape'', parentShape),
               (''severity'', Str ''error'')]]))"

text \<open>STEP 1 of \<open>simplify\<close>: the condition under which it returns at once.\<close>

definition step1_returns :: "string \<Rightarrow> string option \<Rightarrow> string option option \<Rightarrow> bool" where
  "step1_returns ty property constraint =
     (ty = [] \<or> ty = ''ShapeAndResults'' \<or> ty = ''ShapeOrResults''
      \<or> property = Some (rdf ''type'')
      \<or> (constraint \<noteq> None \<and> and_field constraint = Str (rdf ''type''))
      \<or> ty = ''NodeConstraintViolation'' \<or> ty = ''ShapeOrFailure'' \<or> ty = ''ShapeTest'')"

text \<open>
  STEP 2: the condition under which it goes into \<open>errors\<close>. Its last disjunct,
  \<open>(!jsonReport.type) && jsonReport.errors\<close>, asks for an empty type; \<open>errors\<close>
  is an array, which is truthy.
\<close>

definition step2_nested :: "string \<Rightarrow> bool" where
  "step2_nested ty =
     (ty = ''ShapeAndFailure'' \<or> ty = ''Failure'' \<or> ty = ''SemActFailure''
      \<or> ty = ''FailureList'' \<or> ty = ''ExtendedResults'' \<or> ty = ''ExtensionFailure''
      \<or> ty = [])"

text \<open>STEP 4: the object \<open>failure\<close> before its message is set.\<close>

definition step4_failure ::
    "string \<Rightarrow> string option \<Rightarrow> string option option \<Rightarrow> string option option
       \<Rightarrow> jsval \<Rightarrow> jsval \<Rightarrow> jsobj" where
  "step4_failure ty property constraint triple parentNode parentShape =
     [(''type'', Str ty),
      (''property'', js_or (opt_val property) (and_field constraint)),
      (''message'', Str []),
      (''node'', js_or (js_or (and_field triple) parentNode) (Str [])),
      (''shape'', js_or parentShape (Str [])),
      (''severity'', Str ''error'')]"

text \<open>
  \<open>simplify\<close> pushes to \<open>this.failures\<close>; the list is passed and returned. The
  table \<open>msgs\<close> is \<open>this.failureMessages\<close>. The label
  \<^verbatim>\<open>case 'MissingProperty' || 'ExcessTripleViolation' || 'NegatedProperty':\<close> of the
  switch is one label, the value of the expression, which is \<open>'MissingProperty'\<close>.
\<close>

fun simplify ::
    "jsobj \<Rightarrow> report \<Rightarrow> jsval \<Rightarrow> jsval \<Rightarrow> jsobj list \<Rightarrow> error + jsobj list"
and simplify_each ::
    "jsobj \<Rightarrow> report list \<Rightarrow> jsval \<Rightarrow> jsval \<Rightarrow> jsobj list \<Rightarrow> error + jsobj list"
where
  "simplify msgs (Arr rs) parentNode parentShape failures =
     simplify_each msgs rs parentNode parentShape failures"
| "simplify msgs (Item ty property node shape unexpectedTriples triple ctx code constraint errors)
       parentNode parentShape failures =
     (if step1_returns ty property constraint
      then Inr failures
      else if step2_nested ty
      then simplify msgs errors (js_or (opt_val node) parentNode) (js_or (opt_val shape) parentShape)
             failures
      else if ty = ''ClosedShapeViolation''
      then (case unexpectedTriples of
              None \<Rightarrow> Inr failures
            | Some ts \<Rightarrow> closed_shape_failures msgs ty ts parentNode parentShape failures)
      else
        (let failure = step4_failure ty property constraint triple parentNode parentShape
         in
         if ty = ''TypeMismatch'' then
           (case formatString (get_prop msgs ty) failure of
              Inl e \<Rightarrow> Inl e
            | Inr m \<Rightarrow>
                (case simplify msgs errors Undefined Undefined failures of
                   Inl e \<Rightarrow> Inl e
                 | Inr failures' \<Rightarrow> Inr (failures' @ [set_prop failure ''message'' (Str m)])))
         else if ty = ''MissingProperty'' then
           (case formatString (get_prop msgs ty) failure of
              Inl e \<Rightarrow> Inl e
            | Inr m \<Rightarrow> Inr (failures @ [set_prop failure ''message'' (Str m)]))
         else if ty = ''BooleanSemActFailure'' then
           (if ctx = None \<or> \<not> truthy (and_field ctx) then Inr failures
            else
              (case formatString (get_prop msgs ty)
                      [(''property'', get_prop failure ''property''), (''code'', opt_val code)] of
                 Inl e \<Rightarrow> Inl e
               | Inr m \<Rightarrow> Inr (failures @ [set_prop failure ''message'' (Str m)])))
         else Inl (ShexValidationError (''Unknown failure type '' @ ty))))"
| "simplify_each msgs [] parentNode parentShape failures = Inr failures"
| "simplify_each msgs (r # rs) parentNode parentShape failures =
     (case simplify msgs r parentNode parentShape failures of
        Inl e \<Rightarrow> Inl e
      | Inr failures' \<Rightarrow> simplify_each msgs rs parentNode parentShape failures')"

text \<open>
  \<open>removeMissingIfTypeMismatch\<close>. The failures are objects made one by one, so
  \<open>missingFailures.includes(x)\<close> holds of the objects found and of no other: each
  round removes the first failure that matches.
\<close>

fun remove_first :: "('a \<Rightarrow> bool) \<Rightarrow> 'a list \<Rightarrow> 'a list" where
  "remove_first P [] = []"
| "remove_first P (x # xs) = (if P x then xs else x # remove_first P xs)"

definition removeMissingIfTypeMismatch :: "jsobj list \<Rightarrow> jsobj list" where
  "removeMissingIfTypeMismatch failures =
     fold (\<lambda>typeMismatch fs.
             remove_first (\<lambda>x. get_prop x ''property'' = get_prop typeMismatch ''property''
                               \<and> get_prop x ''type'' = Str ''MissingProperty'') fs)
          (filter (\<lambda>x. get_prop x ''type'' = Str ''TypeMismatch'') failures) failures"

section \<open>validator.js: shapes and their annotations\<close>

text \<open>
  ShExJ (types/shexjs/core.d.ts): a \<open>TripleConstraint\<close> with its predicate and its
  optional annotations (predicate and \<open>object.value\<close> of each); the expression of a
  \<open>TargetShape\<close>, one constraint or an object with \<open>expressions\<close>; and a shape,
  which is a \<open>TargetShape\<close> (of type \<open>'Shape'\<close>) or an \<open>IntermediateShape\<close>
  with its optional \<open>shapeExprs\<close>.
\<close>

datatype tripleConstraint =
  TripleConstraint (tc_predicate: string) (tc_annotations: "(string \<times> string) list option")

datatype shapeExpression = Single tripleConstraint | Expressions "tripleConstraint list"

datatype shape =
    TargetShape string "shapeExpression option"
  | IntermediateShape string "shape list option"

fun shape_id :: "shape \<Rightarrow> string" where
  "shape_id (TargetShape i e) = i"
| "shape_id (IntermediateShape i ss) = i"

fun getShapeCore :: "shape \<Rightarrow> shape option"
and getShapeCore_first :: "shape list \<Rightarrow> shape option"
where
  "getShapeCore (TargetShape i e) = Some (TargetShape i e)"
| "getShapeCore (IntermediateShape i None) = None"
| "getShapeCore (IntermediateShape i (Some ss)) = getShapeCore_first ss"
| "getShapeCore_first [] = None"
| "getShapeCore_first (s # ss) =
     (case getShapeCore s of Some c \<Rightarrow> Some c | None \<Rightarrow> getShapeCore_first ss)"

text \<open>The map \<open>this.shapes\<close> the constructor builds.\<close>

definition shapes_map :: "shape list \<Rightarrow> (string, shape option) jsmap" where
  "shapes_map ss = fold (\<lambda>s m. map_set (shape_id s) (getShapeCore s) m) ss []"

definition getAnnotations ::
    "(string, shape option) jsmap \<Rightarrow> string \<Rightarrow> string \<Rightarrow> (string, string) jsmap" where
  "getAnnotations shapes shp property =
     (case map_get shapes shp of
        Some (Some (TargetShape i (Some expression))) \<Rightarrow>
          (case (case expression of
                   Expressions es \<Rightarrow>
                     (case filter (\<lambda>x. tc_predicate x = property) es of
                        [] \<Rightarrow> None
                      | x # _ \<Rightarrow> Some x)
                 | Single tc \<Rightarrow> if tc_predicate tc = property then Some tc else None) of
             Some propStructure \<Rightarrow>
               (case tc_annotations propStructure of
                  Some anns \<Rightarrow> fold (\<lambda>x mapper. map_set (fst x) (snd x) mapper) anns []
                | None \<Rightarrow> [])
           | None \<Rightarrow> [])
      | _ \<Rightarrow> [])"

text \<open>
  \<open>addLocalizedAnnotations\<close>; \<open>localizedAnnotations\<close> is the table of the locale,
  from a label to the entries of its object.
\<close>

definition addLocalizedAnnotations ::
    "(string \<times> (string \<times> string) list) list \<Rightarrow> jsobj \<Rightarrow> string \<Rightarrow> jsobj" where
  "addLocalizedAnnotations localizedAnnotations failure label =
     (case map_of localizedAnnotations label of
        None \<Rightarrow> failure
      | Some entries \<Rightarrow>
          fold (\<lambda>kv f. if CHR ''@'' \<notin> set (fst kv) then set_prop f (fst kv) (Str (snd kv)) else f)
               entries failure)"

text \<open>
  One failure of \<open>toStructuredDataReport\<close>. \<open>annotations\<close> is
  \<open>options.annotations\<close>, from a field of the failure to the URI of the annotation;
  \<open>severityMessages\<close> is the locale's table of severity labels.
\<close>

definition structured_failure ::
    "(string, shape option) jsmap \<Rightarrow> (string \<times> string) list option
       \<Rightarrow> (string \<times> (string \<times> string) list) list \<Rightarrow> jsobj \<Rightarrow> jsobj \<Rightarrow> jsobj" where
  "structured_failure shapes annotations localizedAnnotations severityMessages err =
     (let failure =
            [(''property'', get_prop err ''property''), (''message'', get_prop err ''message''),
             (''shape'', get_prop err ''shape''), (''node'', get_prop err ''node''),
             (''severity'', Str ''error'')];
          failure' =
            (case annotations of
               None \<Rightarrow> failure
             | Some anns \<Rightarrow>
                 if truthy (get_prop err ''shape'') \<and> truthy (get_prop err ''property'') then
                   (let shapeAnnotations =
                          getAnnotations shapes (to_string (get_prop err ''shape''))
                            (to_string (get_prop err ''property''));
                        annotated =
                          fold (\<lambda>kv f.
                                  let annotation =
                                        js_or (opt_val (map_get shapeAnnotations (snd kv)))
                                              (get_prop f (fst kv))
                                  in if truthy annotation then set_prop f (fst kv) annotation else f)
                               anns failure
                    in if map_get shapeAnnotations (rdfs ''label'') \<noteq> None
                       then addLocalizedAnnotations localizedAnnotations annotated
                              (to_string (js_or (opt_val (map_get shapeAnnotations (rdfs ''label'')))
                                                (Str [])))
                       else annotated)
                 else failure)
      in set_prop failure' ''severityLabel''
           (get_prop severityMessages (to_string (get_prop failure' ''severity''))))"

definition toStructuredDataReport ::
    "(string, shape option) jsmap \<Rightarrow> (string \<times> string) list option
       \<Rightarrow> (string \<times> (string \<times> string) list) list \<Rightarrow> jsobj \<Rightarrow> jsobj list \<Rightarrow> jsobj list" where
  "toStructuredDataReport shapes annotations localizedAnnotations severityMessages failures =
     map (structured_failure shapes annotations localizedAnnotations severityMessages) failures"

section \<open>The configuration of schema-validator.js\<close>

datatype hierarchy = Hierarchy string "hierarchy list option"

text \<open>
  What the module loads or calls and this repository does not hold: the assets
  \<open>hierarchy.json\<close> and \<open>shexj.json\<close> (its \<open>shapes\<close>), the locale's tables
  (annotations, and the messages' \<open>failureTypes\<close> and \<open>severity\<close>), the validator
  of shex.js (\<open>validator.validate(db, [{node, shape}])\<close>, given the store, the node
  and the shape), the three stream parsers as \<open>tryParse\<close> sees them (\<open>None\<close> for
  \<open>undefined\<close> and for a rejection), and the string \<open>dummyUrl()\<close> draws.
\<close>

record env =
  env_hierarchy :: hierarchy
  env_shapes :: "shape list"
  localeAnnotations :: "(string \<times> (string \<times> string) list) list"
  failureMessages :: jsobj
  severityMessages :: jsobj
  shex_validate :: "store \<Rightarrow> string \<Rightarrow> string \<Rightarrow> report"
  parseJsonLd :: "string \<Rightarrow> string \<Rightarrow> store option"
  parseMicrodata :: "string \<Rightarrow> string \<Rightarrow> store option"
  parseRdfa :: "string \<Rightarrow> string \<Rightarrow> store option"
  dummyUrl :: string

definition shapeIds :: "env \<Rightarrow> string list" where
  "shapeIds e = map shape_id (env_shapes e)"

text \<open>The constant \<open>annotations\<close> of schema-validator.js.\<close>

definition annotations :: "(string \<times> string) list" where
  "annotations =
     [(''url'', schema ''url''), (''description'', schema ''description''),
      (''severity'', schema ''identifier'')]"

section \<open>validator.js: ValidationReport and ShexValidator.validate\<close>

text \<open>
  The constructor of \<open>ValidationReport\<close>: \<open>simplify\<close>, then
  \<open>removeMissingIfTypeMismatch\<close>.
\<close>

definition validationReport :: "jsobj \<Rightarrow> report \<Rightarrow> error + jsobj list" where
  "validationReport msgs jsonReport =
     (case simplify msgs jsonReport Undefined Undefined [] of
        Inl e \<Rightarrow> Inl e
      | Inr failures \<Rightarrow> Inr (removeMissingIfTypeMismatch failures))"

text \<open>
  \<open>validate\<close> on a store, as \<open>shexValidator\<close> of schema-validator.js runs it
  (with the shapes, the locale's tables and \<open>{annotations: annotations}\<close>); the
  result is the field \<open>failures\<close>.
\<close>

definition validate :: "env \<Rightarrow> store \<Rightarrow> string \<Rightarrow> string \<Rightarrow> error + jsobj list" where
  "validate e parsedData shp optBaseUrl =
     (let baseUrl = (if optBaseUrl \<noteq> [] then optBaseUrl else dummyUrl e) in
      case validationReport (failureMessages e) (shex_validate e parsedData baseUrl shp) of
        Inl err \<Rightarrow> Inl err
      | Inr failures \<Rightarrow>
          Inr (toStructuredDataReport (shapes_map (env_shapes e)) (Some annotations)
                 (localeAnnotations e) (severityMessages e) failures))"

section \<open>parser.js: stringToQuads\<close>

definition stringToQuads :: "env \<Rightarrow> string \<Rightarrow> string \<Rightarrow> error + store" where
  "stringToQuads e text url =
     (case (case parseJsonLd e text url of
              Some s \<Rightarrow> Some s
            | None \<Rightarrow> (case parseMicrodata e text url of
                         Some s \<Rightarrow> Some s
                       | None \<Rightarrow> parseRdfa e text url)) of
        None \<Rightarrow> Inl InvalidDataError
      | Some res \<Rightarrow>
          if length (getQuads res None None None) = 0 then Inl InvalidDataError else Inr res)"

section \<open>schema-validator.js: recursiveValidate and validateSchemaOrg\<close>

text \<open>
  The store \<open>shapeStore\<close> is a value of the map \<open>quadsToShapes\<close> returns, which
  may be \<open>undefined\<close>; a method call on it throws then.
\<close>

fun recursiveValidate :: "env \<Rightarrow> hierarchy \<Rightarrow> store option \<Rightarrow> string \<Rightarrow> error + jsobj list"
and recursiveValidate_nested ::
    "env \<Rightarrow> hierarchy list \<Rightarrow> store option \<Rightarrow> string \<Rightarrow> jsval list \<Rightarrow> jsobj list
       \<Rightarrow> error + jsobj list"
where
  "recursiveValidate e (Hierarchy service nested) shapeStore ident =
     (case shapeStore of
        None \<Rightarrow> Inl TypeError
      | Some st \<Rightarrow>
          (case getQuads st (Some ident) (Some (rdf ''type'')) None of
             [] \<Rightarrow> Inl InvalidDataError
           | typeQuad # _ \<Rightarrow>
               (let ty = removeUrls (tvalue (object typeQuad));
                    startShape = shex (''Valid'' @ service @ removeUrls ty)
                in case (if startShape \<in> set (shapeIds e) then validate e st startShape ident
                         else Inr []) of
                     Inl err \<Rightarrow> Inl err
                   | Inr fs \<Rightarrow>
                       (let failures =
                              map (\<lambda>failure.
                                     set_prop (set_prop failure ''service'' (Str service))
                                       ''node'' (Str (removeUrls ty))) fs;
                            properties = map (\<lambda>failure. get_prop failure ''property'') failures
                        in case nested of
                             None \<Rightarrow> Inr failures
                           | Some ns \<Rightarrow>
                               recursiveValidate_nested e ns shapeStore ident properties
                                 failures))))"
| "recursiveValidate_nested e [] shapeStore ident properties failures = Inr failures"
| "recursiveValidate_nested e (nestedService # rest) shapeStore ident properties failures =
     (case recursiveValidate e nestedService shapeStore ident of
        Inl err \<Rightarrow> Inl err
      | Inr nested \<Rightarrow>
          recursiveValidate_nested e rest shapeStore ident properties
            (failures @ filter (\<lambda>x. get_prop x ''property'' \<notin> set properties) nested))"

text \<open>
  The inner loop of \<open>validateSchemaOrg\<close>, over \<open>shapes.entries()\<close>. It pushes to
  \<open>report\<close>; an exception leaves the loop with what was pushed before it.
\<close>

fun validate_shapes ::
    "env \<Rightarrow> (string \<times> store option) list \<Rightarrow> jsobj list \<Rightarrow> error option \<times> jsobj list" where
  "validate_shapes e [] report = (None, report)"
| "validate_shapes e ((ident, shp) # rest) report =
     (case recursiveValidate e (env_hierarchy e) shp ident of
        Inl err \<Rightarrow> (Some err, report)
      | Inr fs \<Rightarrow>
          (case uniqueBy fs [''property'', ''shape'', ''severity''] of
             Inl err \<Rightarrow> (Some err, report)
           | Inr failures \<Rightarrow> validate_shapes e rest (report @ failures)))"

text \<open>
  The body of the \<open>try\<close> for one item: the exception it ends with, if any, and the
  report. The bound \<open>n\<close> is that of \<open>quadsToShapes\<close>.
\<close>

definition try_item ::
    "nat \<Rightarrow> env \<Rightarrow> string \<Rightarrow> string \<Rightarrow> jsobj list \<Rightarrow> (error option \<times> jsobj list) option" where
  "try_item n e item url report =
     (case stringToQuads e item url of
        Inl err \<Rightarrow> Some (Some err, report)
      | Inr st \<Rightarrow>
          (case quadsToShapes n st of
             None \<Rightarrow> None
           | Some shapes \<Rightarrow> Some (validate_shapes e shapes report)))"

text \<open>The loop over \<open>data\<close>, with its \<open>catch\<close>.\<close>

fun validate_items ::
    "nat \<Rightarrow> env \<Rightarrow> string list \<Rightarrow> string \<Rightarrow> jsobj list \<Rightarrow> (error + jsobj list) option" where
  "validate_items n e [] url report = Some (Inr report)"
| "validate_items n e (item # items) url report =
     (case try_item n e item url report of
        None \<Rightarrow> None
      | Some (None, report') \<Rightarrow> validate_items n e items url report'
      | Some (Some err, report') \<Rightarrow>
          if err \<noteq> InvalidDataError then Some (Inl err)
          else validate_items n e items url report')"

definition validateSchemaOrg ::
    "nat \<Rightarrow> env \<Rightarrow> string list \<Rightarrow> string \<Rightarrow> (error + jsobj list) option" where
  "validateSchemaOrg n e data url = validate_items n e data url []"

section \<open>A small configuration and small documents\<close>

text \<open>
  Values for the witnesses: two services, \<open>Schema\<close> and below it \<open>Google\<close>,
  each with a shape for \<open>Thing\<close>; the messages of the English locale that are used;
  a validator that reports a missing \<open>name\<close> for the shape of \<open>Schema\<close>, and a
  missing \<open>name\<close> and a missing \<open>description\<close> for the shape of \<open>Google\<close>,
  and for a shape called \<open>ValidSchemaEvent\<close> a node of a type this code does not
  know; and parsers that read five documents.
\<close>

definition named :: "string \<Rightarrow> rdfterm" where
  "named s = \<lparr>termType = NamedNode, tid = s, tvalue = s\<rparr>"

definition triple_of :: "string \<Rightarrow> string \<Rightarrow> string \<Rightarrow> quad" where
  "triple_of s p ob = \<lparr>subject = named s, predicate = named p, object = named ob\<rparr>"

definition missing_property :: "string \<Rightarrow> report" where
  "missing_property p =
     Item ''MissingProperty'' (Some p) None None None None None None None (Arr [])"

definition failure_of :: "string \<Rightarrow> string \<Rightarrow> report list \<Rightarrow> report" where
  "failure_of nd shp errs =
     Item ''Failure'' None (Some nd) (Some shp) None None None None None (Arr errs)"

definition ex_validate :: "store \<Rightarrow> string \<Rightarrow> string \<Rightarrow> report" where
  "ex_validate st nd shp =
     (if shp = shex ''ValidSchemaThing''
      then failure_of nd shp [missing_property (schema ''name'')]
      else if shp = shex ''ValidGoogleThing''
      then failure_of nd shp
             [missing_property (schema ''name''), missing_property (schema ''description'')]
      else if shp = shex ''ValidSchemaEvent''
      then failure_of nd shp
             [Item ''ExcessTripleViolation'' (Some (schema ''name'')) None None None None None
                None None (Arr [])]
      else Arr [])"

text \<open>
  \<open>one\<close>: one entity of type \<open>Thing\<close>. \<open>two\<close>: two such entities. \<open>mixed\<close>: an
  entity of type \<open>Thing\<close> and one without type, which is the first in the map of
  shapes. \<open>tail\<close>: the same two entities, the one without type the second in the map
  of shapes. \<open>event\<close>: an entity of type \<open>Event\<close>.
\<close>

definition ex_parse :: "string \<Rightarrow> string \<Rightarrow> store option" where
  "ex_parse text url =
     (if text = ''one'' then
        Some [triple_of ''http://example.org/a'' (rdf ''type'') (schema ''Thing'')]
      else if text = ''two'' then
        Some [triple_of ''http://example.org/a'' (rdf ''type'') (schema ''Thing''),
              triple_of ''http://example.org/b'' (rdf ''type'') (schema ''Thing'')]
      else if text = ''mixed'' then
        Some [triple_of ''http://example.org/a'' (rdf ''type'') (schema ''Thing''),
              triple_of ''http://example.org/b'' (schema ''url'') ''http://example.org/c'']
      else if text = ''tail'' then
        Some [triple_of ''http://example.org/b'' (schema ''url'') ''http://example.org/c'',
              triple_of ''http://example.org/a'' (rdf ''type'') (schema ''Thing'')]
      else if text = ''event'' then
        Some [triple_of ''http://example.org/a'' (rdf ''type'') (schema ''Event'')]
      else None)"

definition ex_env :: env where
  "ex_env =
     \<lparr>env_hierarchy = Hierarchy ''Schema'' (Some [Hierarchy ''Google'' None]),
      env_shapes = [TargetShape (shex ''ValidSchemaThing'') None,
                    TargetShape (shex ''ValidGoogleThing'') None,
                    TargetShape (shex ''ValidSchemaEvent'') None],
      localeAnnotations = [],
      failureMessages = [(''MissingProperty'', Str ''Property {property} not found'')],
      severityMessages = [(''error'', Str ''error''), (''warning'', Str ''warning'')],
      shex_validate = ex_validate,
      parseJsonLd = ex_parse,
      parseMicrodata = (\<lambda>text url. None),
      parseRdfa = (\<lambda>text url. None),
      dummyUrl = ''https://example.org/ABCDEFGHIJKLMNOP''\<rparr>"

text \<open>
  Two stores: \<open>A\<close> and \<open>B\<close> referring to each other, and a chain from \<open>A\<close>
  over \<open>B\<close> to \<open>C\<close>.
\<close>

definition ex_cycle :: store where
  "ex_cycle = [triple_of ''A'' ''p'' ''B'', triple_of ''B'' ''p'' ''A'']"

definition ex_chain :: store where
  "ex_chain = [triple_of ''A'' ''p'' ''B'', triple_of ''B'' ''p'' ''C'']"

section \<open>Notions of the statements\<close>

text \<open>\<open>hierarchyNode.nested\<close> as the loop sees it: nothing when it is not there.\<close>

fun nested_of :: "hierarchy list option \<Rightarrow> hierarchy list" where
  "nested_of None = []"
| "nested_of (Some ns) = ns"

text \<open>The failure the small validator's missing property becomes in the report.\<close>

definition ex_failure :: "string \<Rightarrow> string \<Rightarrow> jsobj" where
  "ex_failure service property =
     [(''property'', Str (schema property)),
      (''message'', Str (''Property '' @ schema property @ '' not found'')),
      (''shape'', Str (shex (''Valid'' @ service @ ''Thing''))),
      (''node'', Str ''Thing''), (''severity'', Str ''error''),
      (''severityLabel'', Str ''error''), (''service'', Str service)]"

text \<open>
  The items the filter of \<open>uniqueBy\<close> keeps when no call of it throws: an item is
  kept when its value \<open>val\<close> is no own property of \<open>seen\<close>.
\<close>

fun uniqueBy_kept :: "string list \<Rightarrow> jsobj list \<Rightarrow> string list \<Rightarrow> jsobj list" where
  "uniqueBy_kept seen [] keys = []"
| "uniqueBy_kept seen (item # items) keys =
     (if uniqueBy_val item keys \<in> set seen then uniqueBy_kept seen items keys
      else item # uniqueBy_kept
             (if uniqueBy_val item keys = ''__proto__'' then seen
              else uniqueBy_val item keys # seen) items keys)"

text \<open>
  What one entry \<open>[id, shape]\<close> of the map of shapes adds to the report, or the
  exception its validation ends with: \<open>recursiveValidate\<close> from the root of the
  hierarchy, then \<open>uniqueBy\<close>.
\<close>

definition entity_failures :: "env \<Rightarrow> string \<times> store option \<Rightarrow> error + jsobj list" where
  "entity_failures e p =
     (case recursiveValidate e (env_hierarchy e) (snd p) (fst p) of
        Inl err \<Rightarrow> Inl err
      | Inr fs \<Rightarrow> uniqueBy fs [''property'', ''shape'', ''severity''])"

text \<open>
  The entries of the map of shapes of an item, in the order of the map; none when the
  item gives no quads.
\<close>

definition item_entities ::
    "nat \<Rightarrow> env \<Rightarrow> string \<Rightarrow> string \<Rightarrow> (string \<times> store option) list" where
  "item_entities n e item url =
     (case stringToQuads e item url of
        Inl err \<Rightarrow> []
      | Inr st \<Rightarrow> (case quadsToShapes n st of None \<Rightarrow> [] | Some shapes \<Rightarrow> shapes))"

text \<open>
  The failures of the entities of an item that come before the first entity whose
  validation ends with an exception, entity after entity.
\<close>

definition item_failures :: "nat \<Rightarrow> env \<Rightarrow> string \<Rightarrow> string \<Rightarrow> jsobj list" where
  "item_failures n e item url =
     concat (map (\<lambda>p. projr (entity_failures e p))
               (takeWhile (\<lambda>p. \<not> isl (entity_failures e p)) (item_entities n e item url)))"

section \<open>Depth-first search on successor lists\<close>

text \<open>
  The two closures of \<open>stronglyConnectedComponents\<close> are the same search, on the
  quads that leave a vertex and on those that enter it. Here it is on a function
  \<open>E\<close> that gives the successors of a vertex in the order they are tried, with the
  set of the used vertices, the vertices in the order they are entered and the vertices
  in the order they are left. The bound \<open>n\<close> is that of the closures.
\<close>

fun adfs :: "nat \<Rightarrow> ('a \<Rightarrow> 'a list) \<Rightarrow> 'a \<Rightarrow> 'a set \<times> 'a list \<times> 'a list
               \<Rightarrow> ('a set \<times> 'a list \<times> 'a list) option"
and adfs_succs :: "nat \<Rightarrow> ('a \<Rightarrow> 'a list) \<Rightarrow> 'a list \<Rightarrow> 'a set \<times> 'a list \<times> 'a list
               \<Rightarrow> ('a set \<times> 'a list \<times> 'a list) option"
where
  "adfs 0 E v s = None"
| "adfs (Suc n) E v s =
     (case adfs_succs n E (E v) (insert v (fst s), fst (snd s) @ [v], snd (snd s)) of
        None \<Rightarrow> None
      | Some s' \<Rightarrow> Some (fst s', fst (snd s'), snd (snd s') @ [v]))"
| "adfs_succs n E [] s = Some s"
| "adfs_succs n E (w # ws) s =
     (if w \<notin> fst s
      then (case adfs n E w s of None \<Rightarrow> None | Some s' \<Rightarrow> adfs_succs n E ws s')
      else adfs_succs n E ws s)"

text \<open>The edges of \<open>E\<close>; the part of a list from an element on.\<close>

definition edges :: "('a \<Rightarrow> 'a list) \<Rightarrow> ('a \<times> 'a) set" where
  "edges E = {(x, y). y \<in> set (E x)}"

definition after :: "'a list \<Rightarrow> 'a \<Rightarrow> 'a set" where
  "after L y = set (dropWhile (\<lambda>z. z \<noteq> y) L)"

text \<open>
  A list of new vertices: apart from the used ones, without repetition, and with every
  successor of its vertices used or in it.
\<close>

definition seg_ok :: "('a \<Rightarrow> 'a list) \<Rightarrow> 'a set \<Rightarrow> 'a list \<Rightarrow> bool" where
  "seg_ok E U L = (set L \<inter> U = {} \<and> distinct L \<and> (\<forall>x\<in>set L. set (E x) \<subseteq> U \<union> set L))"

text \<open>
  The order in which vertices are left: when \<open>x\<close> reaches \<open>y\<close>, a vertex that
  reaches \<open>x\<close> and is reached from it is left no earlier than \<open>y\<close>, or \<open>x\<close>
  reaches one of the vertices \<open>T\<close> still being searched.
\<close>

definition kos :: "('a \<Rightarrow> 'a list) \<Rightarrow> 'a list \<Rightarrow> 'a set \<Rightarrow> bool" where
  "kos E L T =
     (\<forall>x\<in>set L. \<forall>y\<in>set L. (x, y) \<in> (edges E)\<^sup>* \<longrightarrow>
        (\<exists>x'\<in>after L y. (x, x') \<in> (edges E)\<^sup>* \<and> (x', x) \<in> (edges E)\<^sup>*)
        \<or> (\<exists>t\<in>T. (x, t) \<in> (edges E)\<^sup>*))"

text \<open>What is used and reaches a vertex that is not, reaches \<open>v\<close>.\<close>

definition pre_ok :: "('a \<Rightarrow> 'a list) \<Rightarrow> 'a set \<Rightarrow> 'a \<Rightarrow> bool" where
  "pre_ok E U v = (\<forall>z\<in>U. \<forall>y. y \<notin> U \<and> (z, y) \<in> (edges E)\<^sup>* \<longrightarrow> (z, v) \<in> (edges E)\<^sup>*)"

text \<open>What a search adds to a state: the new vertices \<open>L\<close>, in the order left.\<close>

definition dfs_post ::
    "('a \<Rightarrow> 'a list) \<Rightarrow> 'a set \<times> 'a list \<times> 'a list \<Rightarrow> 'a set \<times> 'a list \<times> 'a list \<Rightarrow> 'a list \<Rightarrow> bool" where
  "dfs_post E s s' L =
     (snd (snd s') = snd (snd s) @ L
      \<and> (\<exists>Lp. fst (snd s') = fst (snd s) @ Lp \<and> set Lp = set L \<and> distinct Lp)
      \<and> fst s' = fst s \<union> set L
      \<and> seg_ok E (fst s) L)"

text \<open>
  The search of \<open>forwardDfs\<close> and \<open>backwardDfs\<close> as instances: the vertices
  marked \<open>true\<close> in \<open>used\<close>, and the successors the loops try.
\<close>

definition used_set :: "(string, bool) jsmap \<Rightarrow> string set" where
  "used_set used = {x. map_get used x = Some True}"

definition forward_succs :: "store \<Rightarrow> string list \<Rightarrow> string \<Rightarrow> string list" where
  "forward_succs st nodes v =
     map (\<lambda>q. tid (object q))
       (filter (\<lambda>q. termType (object q) \<noteq> Literal \<and> tid (object q) \<in> set nodes)
          (getQuads st (Some v) None None))"

definition backward_succs :: "store \<Rightarrow> string \<Rightarrow> string list" where
  "backward_succs st v = map (\<lambda>q. tid (subject q)) (getQuads st None None (Some v))"

text \<open>
  The edges of a store, from the id of a subject to the id of its object when that is
  no literal; the ids of its subjects; and the condition that no literal object has the
  id of a subject (the id of a literal is its quoted text, that of a subject an IRI or a
  blank node label).
\<close>

definition store_edges :: "store \<Rightarrow> (string \<times> string) set" where
  "store_edges st =
     {(tid (subject q), tid (object q)) | q. q \<in> set st \<and> termType (object q) \<noteq> Literal}"

definition subject_ids :: "store \<Rightarrow> string set" where
  "subject_ids st = (\<lambda>q. tid (subject q)) ` set st"

definition literals_apart :: "store \<Rightarrow> bool" where
  "literals_apart st =
     (\<forall>q\<in>set st. termType (object q) = Literal \<longrightarrow> tid (object q) \<notin> subject_ids st)"

text \<open>
  The state of the second loop of \<open>stronglyConnectedComponents\<close> before round
  \<open>k\<close>: the vertices marked are the keys of \<open>components\<close>, among them the last
  \<open>k\<close> of \<open>order\<close>, and all are subjects.
\<close>

definition pass_inv ::
    "store \<Rightarrow> string list \<Rightarrow> nat \<Rightarrow> (string, bool) jsmap \<times> (string, nat) jsmap \<times> nat \<Rightarrow> bool" where
  "pass_inv st order k s =
     (used_set (fst s) = fst ` set (fst (snd s))
      \<and> set (drop (length order - k) order) \<subseteq> used_set (fst s)
      \<and> used_set (fst s) \<subseteq> subject_ids st
      \<and> distinct (map fst (fst (snd s))))"

text \<open>
  And for the edges of \<open>E\<close>: with a marked vertex all that reach it and are reached
  from it are marked, the numbers given are below \<open>componentIdx\<close>, and two marked
  vertices have the same number exactly when each reaches the other.
\<close>

definition scc_inv ::
    "(string \<Rightarrow> string list) \<Rightarrow> (string, bool) jsmap \<times> (string, nat) jsmap \<times> nat \<Rightarrow> bool" where
  "scc_inv E s =
     ((\<forall>x\<in>used_set (fst s). \<forall>y. (x, y) \<in> (edges E)\<^sup>* \<and> (y, x) \<in> (edges E)\<^sup>*
           \<longrightarrow> y \<in> used_set (fst s))
      \<and> (\<forall>x\<in>used_set (fst s). \<exists>c<snd (snd s). map_get (fst (snd s)) x = Some c)
      \<and> (\<forall>x\<in>used_set (fst s). \<forall>y\<in>used_set (fst s).
            map_get (fst (snd s)) x = map_get (fst (snd s)) y
            \<longleftrightarrow> (x, y) \<in> (edges E)\<^sup>* \<and> (y, x) \<in> (edges E)\<^sup>*))"

text \<open>
  For \<open>getShape\<close>: the number of ids of subjects that \<open>parsed\<close> does not hold.
\<close>

definition unparsed :: "store \<Rightarrow> jsval list \<Rightarrow> nat" where
  "unparsed st parsed = card (subject_ids st - {i. Str i \<in> set parsed})"

section \<open>formatString: the span of a match\<close>

lemma format_scan_prefix:
  "CHR ''{'' \<notin> set pre \<Longrightarrow> format_scan (pre @ rest) args = pre @ format_scan rest args"
  by (induction pre) auto

lemma last_index_greatest:
  assumes "1 \<le> j" and "j < length run" and "P (run ! j)"
    and "\<forall>k. j < k \<and> k < length run \<longrightarrow> \<not> P (run ! k)"
  shows "last_index P run = Some j"
proof -
  have "[1..<length run] = [1..<j] @ [j..<length run]"
    using assms(1,2) by (metis le_add_diff_inverse less_imp_le upt_add_eq_append)
  then have split: "[1..<length run] = [1..<j] @ j # [Suc j..<length run]"
    using assms(2) by (simp add: upt_conv_Cons)
  have "filter (\<lambda>k. P (run ! k)) [Suc j..<length run] = []"
    using assms(4) by (auto simp: filter_empty_conv)
  then show ?thesis
    unfolding last_index_def rev_filter [symmetric] split using assms(3) by simp
qed

lemma dot_run_brace:
  "\<forall>c\<in>set mid. \<not> line_terminator c \<Longrightarrow>
   dot_run (mid @ CHR ''}'' # post) = mid @ CHR ''}'' # dot_run post"
  by (simp add: dot_run_def line_terminator_def)

lemma format_scan_span:
  assumes "CHR ''{'' \<notin> set pre" and "mid \<noteq> []" and "\<forall>c\<in>set mid. \<not> line_terminator c"
    and "CHR ''}'' \<notin> set (dot_run post)"
  shows "format_scan (pre @ ''{'' @ mid @ ''}'' @ post) args =
         pre @ replacer args (''{'' @ mid @ ''}'') mid @ format_scan post args"
proof -
  let ?run = "mid @ CHR ''}'' # dot_run post"
  have "last_index (\<lambda>d. d = CHR ''}'') ?run = Some (length mid)"
  proof (rule last_index_greatest)
    show "1 \<le> length mid" using assms(2) by (cases mid) auto
    show "length mid < length ?run" by simp
    show "?run ! length mid = CHR ''}''" by simp
    show "\<forall>k. length mid < k \<and> k < length ?run \<longrightarrow> ?run ! k \<noteq> CHR ''}''"
      using assms(4) by (auto simp: nth_append nth_Cons' in_set_conv_nth)
  qed
  then show ?thesis
    using assms(1,3) by (simp add: format_scan_prefix dot_run_brace)
qed

text \<open>
  C10, as amended. On a line, the match that starts at the first opening brace runs to
  the LAST closing brace of that line: with no \<open>{\<close> in \<open>pre\<close>, a non-empty
  \<open>mid\<close> without line terminator and no \<open>}\<close> in the rest of the line, the whole
  of \<open>mid\<close> is the one key \<open>replacer\<close> looks up, whatever braces \<open>mid\<close> holds.
  So two placeholders on one line are one key, and when that key is no property of
  \<open>args\<close> the text stays as it is; the scan goes on behind the match.
\<close>

theorem formatString_span:
  assumes "CHR ''{'' \<notin> set pre" and "mid \<noteq> []" and "\<forall>c\<in>set mid. \<not> line_terminator c"
    and "CHR ''}'' \<notin> set (dot_run post)"
  shows "formatString (Str (pre @ ''{'' @ mid @ ''}'' @ post)) args =
           Inr (pre @ replacer args (''{'' @ mid @ ''}'') mid @ format_scan post args)
         \<and> (\<not> hasOwnProperty args mid \<longrightarrow>
              formatString (Str (pre @ ''{'' @ mid @ ''}'' @ post)) args =
                Inr (pre @ ''{'' @ mid @ ''}'' @ format_scan post args))"
  using format_scan_span [OF assms, of args] by (simp add: formatString_def replacer_def)

text \<open>
  The template needed for \<open>BooleanSemActFailure\<close>, with \<open>property\<close> and \<open>code\<close>
  on one line: nothing is substituted.
\<close>

theorem formatString_span_witness:
  "formatString (Str ''Property {property} failed {code}'')
     [(''property'', Str ''name''), (''code'', Str ''isbn'')]
   = Inr ''Property {property} failed {code}''"
proof -
  have a: "CHR ''{'' \<notin> set ''Property ''" by simp
  have b: "''property} failed {code'' \<noteq> []" by simp
  have c: "\<forall>c\<in>set ''property} failed {code''. \<not> line_terminator c"
    by (simp add: line_terminator_def)
  have d: "CHR ''}'' \<notin> set (dot_run [])" by (simp add: dot_run_def)
  have e: "\<not> hasOwnProperty [(''property'', Str ''name''), (''code'', Str ''isbn'')]
               ''property} failed {code''"
    by (simp add: hasOwnProperty_def)
  from formatString_span [OF a b c d, THEN conjunct2, THEN mp, OF e]
  show ?thesis by simp
qed

text \<open>
  Against C10 as stated: two placeholders on two lines are substituted one by one.
\<close>

theorem formatString_two_lines_counterexample:
  "formatString (Str (''{property}'' @ [CHR 0x0A] @ ''{code}''))
     [(''property'', Str ''name''), (''code'', Str ''isbn'')]
   = Inr (''name'' @ [CHR 0x0A] @ ''isbn'')"
  by (simp add: formatString_def dot_run_def line_terminator_def last_index_def replacer_def
      hasOwnProperty_def get_prop_def js_or_def)

section \<open>simplify: the leaf violation types\<close>

text \<open>
  C1. A node of type \<open>ExcessTripleViolation\<close> or \<open>NegatedProperty\<close> is not given
  a failure: \<open>simplify\<close> throws the error of an unknown type, whatever the table of
  messages, the context and the failures so far. A \<open>MissingProperty\<close> with the
  same fields gets its one failure.
\<close>

theorem simplify_excess_negated_unknown:
  "simplify msgs
     (Item ''ExcessTripleViolation'' (Some ''http://schema.org/name'') None None None None None
        None None (Arr [])) parentNode parentShape failures
   = Inl (ShexValidationError ''Unknown failure type ExcessTripleViolation'')
   \<and> simplify msgs
     (Item ''NegatedProperty'' (Some ''http://schema.org/name'') None None None None None
        None None (Arr [])) parentNode parentShape failures
   = Inl (ShexValidationError ''Unknown failure type NegatedProperty'')
   \<and> simplify [(''MissingProperty'', Str ''Property {property} not found'')]
     (Item ''MissingProperty'' (Some ''http://schema.org/name'') None None None None None
        None None (Arr [])) Undefined Undefined []
   = Inr [[(''type'', Str ''MissingProperty''), (''property'', Str ''http://schema.org/name''),
           (''message'', Str ''Property http://schema.org/name not found''),
           (''node'', Str []), (''shape'', Str []), (''severity'', Str ''error'')]]"
  by (simp add: step1_returns_def step2_nested_def rdf_def namespace_def step4_failure_def
      formatString_def get_prop_def set_prop_def js_or_def dot_run_def line_terminator_def
      last_index_def replacer_def hasOwnProperty_def)

section \<open>addLocalizedAnnotations: what it overwrites\<close>

lemma get_prop_set_prop:
  "get_prop (set_prop f k v) k' = (if k' = k then v else get_prop f k')"
  by (simp add: get_prop_def set_prop_def update_conv')

lemma get_prop_fold_entries:
  "get_prop (fold (\<lambda>kv f. if CHR ''@'' \<notin> set (fst kv) then set_prop f (fst kv) (Str (snd kv)) else f)
               entries failure) k =
   (case map_of (rev (filter (\<lambda>kv. CHR ''@'' \<notin> set (fst kv)) entries)) k of
      Some v \<Rightarrow> Str v
    | None \<Rightarrow> get_prop failure k)"
proof (induction entries arbitrary: failure)
  case Nil
  show ?case by simp
next
  case (Cons kv entries)
  show ?case
    by (cases "map_of (rev (filter (\<lambda>kv. CHR ''@'' \<notin> set (fst kv)) entries)) k")
       (auto simp: Cons.IH get_prop_set_prop map_add_def split: option.splits)
qed

text \<open>
  C6, as amended. The lookup by the label assigns every entry of the locale's object
  whose key has no \<open>@\<close>, whether or not the failure has that field already: a field
  of the failure reads the entry's value when the object has such an entry for it (the
  last one, if the list repeats a key), and otherwise what it read before. Without an
  object for the label nothing changes.
\<close>

theorem addLocalizedAnnotations_fields:
  "get_prop (addLocalizedAnnotations localizedAnnotations failure label) k =
     (case map_of localizedAnnotations label of
        None \<Rightarrow> get_prop failure k
      | Some entries \<Rightarrow>
          (case map_of (rev (filter (\<lambda>kv. CHR ''@'' \<notin> set (fst kv)) entries)) k of
             Some v \<Rightarrow> Str v
           | None \<Rightarrow> get_prop failure k))"
  by (simp add: addLocalizedAnnotations_def get_prop_fold_entries split: option.splits)

text \<open>
  Against C6 as stated: the shape annotates the property with a description and a
  label, the primary pass sets \<open>description\<close> from the shape, and the lookup by the
  label then replaces it, and the message, by the locale's.
\<close>

theorem localized_overwrites_counterexample:
  "structured_failure
     (shapes_map
        [TargetShape ''S''
           (Some (Single (TripleConstraint ''P''
              (Some [(schema ''description'', ''from the shape''), (rdfs ''label'', ''L1'')]))))])
     (Some annotations)
     [(''L1'', [(''@shape'', ''S''), (''description'', ''from the locale''),
               (''message'', ''message of the locale'')])]
     [(''error'', Str ''error'')]
     [(''type'', Str ''MissingProperty''), (''property'', Str ''P''),
      (''message'', Str ''Property P not found''), (''node'', Str ''n''), (''shape'', Str ''S''),
      (''severity'', Str ''error'')]
   = [(''property'', Str ''P''), (''message'', Str ''message of the locale''),
      (''shape'', Str ''S''), (''node'', Str ''n''), (''severity'', Str ''error''),
      (''description'', Str ''from the locale''), (''severityLabel'', Str ''error'')]
   \<and> structured_failure
     (shapes_map
        [TargetShape ''S''
           (Some (Single (TripleConstraint ''P''
              (Some [(schema ''description'', ''from the shape''), (rdfs ''label'', ''L1'')]))))])
     (Some annotations) []
     [(''error'', Str ''error'')]
     [(''type'', Str ''MissingProperty''), (''property'', Str ''P''),
      (''message'', Str ''Property P not found''), (''node'', Str ''n''), (''shape'', Str ''S''),
      (''severity'', Str ''error'')]
   = [(''property'', Str ''P''), (''message'', Str ''Property P not found''),
      (''shape'', Str ''S''), (''node'', Str ''n''), (''severity'', Str ''error''),
      (''description'', Str ''from the shape''), (''severityLabel'', Str ''error'')]"
  by code_simp

section \<open>recursiveValidate: own failures, then what the nested services add\<close>

lemma recursiveValidate_nested_result:
  "recursiveValidate_nested e ns st ident props acc = Inr r \<Longrightarrow>
   \<exists>children. list_all2 (\<lambda>h c. recursiveValidate e h st ident = Inr c) ns children
     \<and> r = acc @ concat (map (filter (\<lambda>x. get_prop x ''property'' \<notin> set props)) children)"
proof (induction ns arbitrary: acc)
  case Nil
  then show ?case by simp
next
  case (Cons h ns)
  from Cons.prems obtain c where c: "recursiveValidate e h st ident = Inr c"
    and rest: "recursiveValidate_nested e ns st ident props
                 (acc @ filter (\<lambda>x. get_prop x ''property'' \<notin> set props) c) = Inr r"
    by (auto split: sum.splits)
  from Cons.IH [OF rest] obtain cs where
    cs: "list_all2 (\<lambda>h c. recursiveValidate e h st ident = Inr c) ns cs"
    and r: "r = (acc @ filter (\<lambda>x. get_prop x ''property'' \<notin> set props) c)
                @ concat (map (filter (\<lambda>x. get_prop x ''property'' \<notin> set props)) cs)"
    by blast
  show ?case
    by (rule exI [of _ "c # cs"]) (simp add: c cs r)
qed

lemma recursiveValidate_leaf:
  "recursiveValidate e (Hierarchy service nested) st ident = Inr r \<Longrightarrow>
   \<exists>own. recursiveValidate e (Hierarchy service None) st ident = Inr own
     \<and> (case nested of
           None \<Rightarrow> r = own
         | Some ns \<Rightarrow>
             recursiveValidate_nested e ns st ident (map (\<lambda>f. get_prop f ''property'') own) own
               = Inr r)"
  by (auto simp: Let_def split: option.splits list.splits sum.splits if_splits)

lemma recursiveValidate_structure:
  assumes "recursiveValidate e (Hierarchy service nested) st ident = Inr r"
  shows "\<exists>own children.
           recursiveValidate e (Hierarchy service None) st ident = Inr own
           \<and> list_all2 (\<lambda>h c. recursiveValidate e h st ident = Inr c) (nested_of nested) children
           \<and> r = own @ concat (map (filter (\<lambda>x. get_prop x ''property''
                                    \<notin> (\<lambda>f. get_prop f ''property'') ` set own)) children)"
proof -
  from recursiveValidate_leaf [OF assms] obtain own where
    own: "recursiveValidate e (Hierarchy service None) st ident = Inr own"
    and n: "case nested of
              None \<Rightarrow> r = own
            | Some ns \<Rightarrow>
                recursiveValidate_nested e ns st ident (map (\<lambda>f. get_prop f ''property'') own) own
                  = Inr r"
    by blast
  show ?thesis
  proof (cases nested)
    case None
    with own n show ?thesis by (intro exI [of _ own] exI [of _ "[]"]) simp
  next
    case (Some ns)
    with n have "recursiveValidate_nested e ns st ident (map (\<lambda>f. get_prop f ''property'') own) own
                   = Inr r" by simp
    from recursiveValidate_nested_result [OF this] obtain children where
      "list_all2 (\<lambda>h c. recursiveValidate e h st ident = Inr c) ns children"
      "r = own @ concat (map (filter (\<lambda>x. get_prop x ''property''
              \<notin> set (map (\<lambda>f. get_prop f ''property'') own))) children)"
      by blast
    with own Some show ?thesis
      by (intro exI [of _ own] exI [of _ children]) simp
  qed
qed

text \<open>
  C7. What \<open>recursiveValidate\<close> returns for a node of the hierarchy is the node's own
  failures (those of the same node without nested services), followed, for each nested
  service in the order of \<open>nested\<close>, by the failures that service returns whose
  property is not the property of one of the node's own failures.
\<close>

theorem recursiveValidate_shadowing:
  assumes "recursiveValidate e (Hierarchy service nested) shapeStore ident = Inr result"
  shows "\<exists>own children.
           recursiveValidate e (Hierarchy service None) shapeStore ident = Inr own
           \<and> list_all2 (\<lambda>h c. recursiveValidate e h shapeStore ident = Inr c)
                (nested_of nested) children
           \<and> result = own @ concat (map (filter (\<lambda>x. get_prop x ''property''
                                    \<notin> (\<lambda>f. get_prop f ''property'') ` set own)) children)"
  using assms by (rule recursiveValidate_structure)

text \<open>
  For the entity of the document \<open>one\<close>: \<open>Schema\<close> fails on \<open>name\<close>,
  \<open>Google\<close> below it on \<open>name\<close> and \<open>description\<close>; the result is the failure
  of \<open>Schema\<close> on \<open>name\<close> and that of \<open>Google\<close> on \<open>description\<close>.
\<close>

theorem recursiveValidate_shadowing_witness:
  "\<exists>own children.
     recursiveValidate ex_env (Hierarchy ''Schema'' None) (ex_parse ''one'' [])
       ''http://example.org/a'' = Inr own
     \<and> list_all2 (\<lambda>h c. recursiveValidate ex_env h (ex_parse ''one'' [])
                           ''http://example.org/a'' = Inr c)
          (nested_of (Some [Hierarchy ''Google'' None])) children
     \<and> [ex_failure ''Schema'' ''name'', ex_failure ''Google'' ''description'']
       = own @ concat (map (filter (\<lambda>x. get_prop x ''property''
                                \<notin> (\<lambda>f. get_prop f ''property'') ` set own)) children)"
proof -
  have "recursiveValidate ex_env (Hierarchy ''Schema'' (Some [Hierarchy ''Google'' None]))
          (ex_parse ''one'' []) ''http://example.org/a''
        = Inr [ex_failure ''Schema'' ''name'', ex_failure ''Google'' ''description'']"
    by code_simp
  then show ?thesis by (rule recursiveValidate_shadowing)
qed

section \<open>recursiveValidate on an entity without type\<close>

lemma recursiveValidate_untyped:
  "getQuads st (Some ident) (Some (rdf ''type'')) None = [] \<Longrightarrow>
   recursiveValidate e h (Some st) ident = Inl InvalidDataError"
  by (cases h) simp

section \<open>uniqueBy and the report of validateSchemaOrg\<close>

lemma uniqueBy_kept_kept:
  "''__proto__'' \<notin> set seen \<Longrightarrow>
   uniqueBy_kept seen items keys =
     map (\<lambda>i. items ! i)
       (filter (\<lambda>i. uniqueBy_val (items ! i) keys \<notin> set seen
                    \<and> (uniqueBy_val (items ! i) keys = ''__proto__''
                       \<or> uniqueBy_val (items ! i) keys
                            \<notin> (\<lambda>x. uniqueBy_val x keys) ` set (take i items)))
          [0..<length items])"
proof (induction items arbitrary: seen)
  case Nil
  show ?case by simp
next
  case (Cons x xs)
  have upt: "[0..<length (x # xs)] = 0 # map Suc [0..<length xs]"
    by (simp add: upt_conv_Cons map_Suc_upt del: upt_Suc)
  show ?case
  proof (cases "uniqueBy_val x keys \<in> set seen")
    case True
    have "filter (\<lambda>i. uniqueBy_val (xs ! i) keys \<notin> set seen
                    \<and> (uniqueBy_val (xs ! i) keys = ''__proto__''
                       \<or> uniqueBy_val (xs ! i) keys
                            \<notin> (\<lambda>x. uniqueBy_val x keys) ` set (take i xs))) [0..<length xs]
        = filter (\<lambda>i. uniqueBy_val (xs ! i) keys \<notin> set seen
                    \<and> (uniqueBy_val (xs ! i) keys = ''__proto__''
                       \<or> (uniqueBy_val (xs ! i) keys \<noteq> uniqueBy_val x keys
                          \<and> uniqueBy_val (xs ! i) keys
                            \<notin> (\<lambda>x. uniqueBy_val x keys) ` set (take i xs)))) [0..<length xs]"
      using True by (intro filter_cong) auto
    with True Cons.prems show ?thesis
      unfolding upt by (simp add: Cons.IH filter_map comp_def)
  next
    case False
    show ?thesis
    proof (cases "uniqueBy_val x keys = ''__proto__''")
      case True
      have "filter (\<lambda>i. uniqueBy_val (xs ! i) keys \<notin> set seen
                    \<and> (uniqueBy_val (xs ! i) keys = ''__proto__''
                       \<or> uniqueBy_val (xs ! i) keys
                            \<notin> (\<lambda>x. uniqueBy_val x keys) ` set (take i xs))) [0..<length xs]
        = filter (\<lambda>i. uniqueBy_val (xs ! i) keys \<notin> set seen
                    \<and> (uniqueBy_val (xs ! i) keys = ''__proto__''
                       \<or> (uniqueBy_val (xs ! i) keys \<noteq> uniqueBy_val x keys
                          \<and> uniqueBy_val (xs ! i) keys
                            \<notin> (\<lambda>x. uniqueBy_val x keys) ` set (take i xs)))) [0..<length xs]"
        using True by (intro filter_cong) auto
      with False True Cons.prems show ?thesis
        unfolding upt by (simp add: Cons.IH filter_map comp_def)
    next
      case notproto: False
      have "filter (\<lambda>i. uniqueBy_val (xs ! i) keys \<notin> set (uniqueBy_val x keys # seen)
                    \<and> (uniqueBy_val (xs ! i) keys = ''__proto__''
                       \<or> uniqueBy_val (xs ! i) keys
                            \<notin> (\<lambda>x. uniqueBy_val x keys) ` set (take i xs))) [0..<length xs]
        = filter (\<lambda>i. uniqueBy_val (xs ! i) keys \<notin> set seen
                    \<and> (uniqueBy_val (xs ! i) keys = ''__proto__''
                       \<or> (uniqueBy_val (xs ! i) keys \<noteq> uniqueBy_val x keys
                          \<and> uniqueBy_val (xs ! i) keys
                            \<notin> (\<lambda>x. uniqueBy_val x keys) ` set (take i xs)))) [0..<length xs]"
        using notproto by (intro filter_cong) auto
      with False notproto Cons.prems show ?thesis
        unfolding upt by (simp add: Cons.IH filter_map comp_def)
    qed
  qed
qed

lemma uniqueBy_filter_result:
  "uniqueBy_filter seen items keys =
     (if items \<noteq> [] \<and> (''hasOwnProperty'' \<in> set seen
           \<or> ''hasOwnProperty'' \<in> (\<lambda>x. uniqueBy_val x keys) ` set (butlast items))
      then Inl TypeError else Inr (uniqueBy_kept seen items keys))"
proof (induction items arbitrary: seen)
  case Nil
  show ?case by simp
next
  case (Cons x xs)
  show ?case
  proof (cases "''hasOwnProperty'' \<in> set seen")
    case True
    then show ?thesis by simp
  next
    case False
    show ?thesis
    proof (cases "uniqueBy_val x keys \<in> set seen")
      case True
      with False have "uniqueBy_val x keys \<noteq> ''hasOwnProperty''" by auto
      with True False show ?thesis by (simp add: Cons.IH)
    next
      case new: False
      show ?thesis
      proof (cases "uniqueBy_val x keys = ''__proto__''")
        case True
        with new False show ?thesis by (simp add: Cons.IH)
      next
        case notproto: False
        with new False show ?thesis by (auto simp: Cons.IH)
      qed
    qed
  qed
qed

lemma uniqueBy_subset: "uniqueBy items keys = Inr kept \<Longrightarrow> set kept \<subseteq> set items"
proof -
  have "set (uniqueBy_kept seen items keys) \<subseteq> set items" for seen
    by (induction items arbitrary: seen) auto
  then show "uniqueBy items keys = Inr kept \<Longrightarrow> set kept \<subseteq> set items"
    by (auto simp: uniqueBy_def uniqueBy_filter_result split: if_splits)
qed

lemma validate_shapes_prefix:
  "\<forall>p\<in>set pre. \<not> isl (entity_failures e p) \<Longrightarrow>
   validate_shapes e (pre @ rest) report
     = validate_shapes e rest (report @ concat (map (\<lambda>p. projr (entity_failures e p)) pre))"
proof (induction pre arbitrary: report)
  case Nil
  show ?case by simp
next
  case (Cons p pre)
  obtain ident shp where p: "p = (ident, shp)" by (cases p)
  from Cons.prems have "\<not> isl (entity_failures e (ident, shp))" by (simp add: p)
  then obtain kept where k: "entity_failures e (ident, shp) = Inr kept"
    by (cases "entity_failures e (ident, shp)") auto
  then obtain fs where
    "recursiveValidate e (env_hierarchy e) shp ident = Inr fs"
    "uniqueBy fs [''property'', ''shape'', ''severity''] = Inr kept"
    by (auto simp: entity_failures_def split: sum.splits)
  with k Cons.IH [of "report @ kept"] Cons.prems show ?case by (simp add: p)
qed

lemma validate_shapes_raise:
  "entity_failures e (ident, shp) = Inl err \<Longrightarrow>
   validate_shapes e ((ident, shp) # rest) report = (Some err, report)"
  by (auto simp: entity_failures_def split: sum.splits)

lemma validate_shapes_result:
  "validate_shapes e shapes report =
     ((case dropWhile (\<lambda>p. \<not> isl (entity_failures e p)) shapes of
         [] \<Rightarrow> None
       | p # _ \<Rightarrow> Some (projl (entity_failures e p))),
      report @ concat (map (\<lambda>p. projr (entity_failures e p))
                         (takeWhile (\<lambda>p. \<not> isl (entity_failures e p)) shapes)))"
proof -
  let ?ok = "\<lambda>p. \<not> isl (entity_failures e p)"
  have split: "shapes = takeWhile ?ok shapes @ dropWhile ?ok shapes" by simp
  have pre: "\<forall>p\<in>set (takeWhile ?ok shapes). ?ok p" by (auto dest: set_takeWhileD)
  show ?thesis
  proof (cases "dropWhile ?ok shapes")
    case Nil
    then have ok: "\<forall>p\<in>set shapes. ?ok p" by (simp add: dropWhile_eq_Nil_conv)
    then have tw: "takeWhile ?ok shapes = shapes" by (simp add: takeWhile_eq_all_conv)
    from validate_shapes_prefix [OF ok, of "[]" report]
    have "validate_shapes e shapes report
            = (None, report @ concat (map (\<lambda>p. projr (entity_failures e p)) shapes))"
      by simp
    then show ?thesis by (simp only: Nil tw list.case)
  next
    case (Cons p rest)
    obtain ident shp where p: "p = (ident, shp)" by (cases p)
    from Cons have "\<not> ?ok p" by (metis hd_dropWhile list.discI list.sel(1))
    then obtain err where err: "entity_failures e (ident, shp) = Inl err"
      by (auto simp: p isl_def)
    from validate_shapes_prefix [OF pre, of "dropWhile ?ok shapes" report] split
    have "validate_shapes e shapes report
            = validate_shapes e (dropWhile ?ok shapes)
                (report @ concat (map (\<lambda>p. projr (entity_failures e p)) (takeWhile ?ok shapes)))"
      by simp
    with Cons p err validate_shapes_raise [OF err] show ?thesis by simp
  qed
qed

lemma stringToQuads_error: "stringToQuads e item url = Inl err \<Longrightarrow> err = InvalidDataError"
  by (auto simp: stringToQuads_def split: option.splits if_splits)

lemma validate_shapes_chunks:
  "validate_shapes e shapes report = (r, report') \<Longrightarrow>
   \<exists>chunks. report' = report @ concat chunks
     \<and> (\<forall>c\<in>set chunks. \<exists>shp ident fs.
            recursiveValidate e (env_hierarchy e) shp ident = Inr fs
            \<and> uniqueBy fs [''property'', ''shape'', ''severity''] = Inr c)"
proof (induction shapes arbitrary: report)
  case Nil
  then show ?case by (intro exI [of _ "[]"]) simp
next
  case (Cons p shapes)
  obtain ident shp where p: "p = (ident, shp)" by (cases p)
  show ?case
  proof (cases "entity_failures e (ident, shp)")
    case (Inl err)
    with Cons.prems p validate_shapes_raise [OF Inl, of shapes report] show ?thesis
      by (intro exI [of _ "[]"]) simp
  next
    case (Inr kept)
    then obtain fs where fs: "recursiveValidate e (env_hierarchy e) shp ident = Inr fs"
      "uniqueBy fs [''property'', ''shape'', ''severity''] = Inr kept"
      by (auto simp: entity_failures_def split: sum.splits)
    with Cons.prems p have "validate_shapes e shapes (report @ kept) = (r, report')" by simp
    from Cons.IH [OF this] obtain chunks where
      "report' = (report @ kept) @ concat chunks"
      "\<forall>c\<in>set chunks. \<exists>shp ident fs.
            recursiveValidate e (env_hierarchy e) shp ident = Inr fs
            \<and> uniqueBy fs [''property'', ''shape'', ''severity''] = Inr c"
      by blast
    with fs show ?thesis
      by (intro exI [of _ "kept # chunks"]) auto
  qed
qed

lemma try_item_chunks:
  assumes "try_item n e item url report = Some (r, report')"
  shows "\<exists>chunks. report' = report @ concat chunks
     \<and> (\<forall>c\<in>set chunks. \<exists>shp ident fs.
            recursiveValidate e (env_hierarchy e) shp ident = Inr fs
            \<and> uniqueBy fs [''property'', ''shape'', ''severity''] = Inr c)"
proof (cases "stringToQuads e item url")
  case (Inl err)
  with assms show ?thesis by (intro exI [of _ "[]"]) (simp add: try_item_def)
next
  case (Inr st)
  with assms obtain shapes where "validate_shapes e shapes report = (r, report')"
    by (auto simp: try_item_def split: option.splits)
  then show ?thesis by (rule validate_shapes_chunks)
qed

lemma validate_items_chunks:
  "validate_items n e items url report = Some (Inr final) \<Longrightarrow>
   \<exists>chunks. final = report @ concat chunks
     \<and> (\<forall>c\<in>set chunks. \<exists>shp ident fs.
            recursiveValidate e (env_hierarchy e) shp ident = Inr fs
            \<and> uniqueBy fs [''property'', ''shape'', ''severity''] = Inr c)"
proof (induction items arbitrary: report)
  case Nil
  then show ?case by (intro exI [of _ "[]"]) simp
next
  case (Cons item items)
  from Cons.prems obtain r report' where
    t: "try_item n e item url report = Some (r, report')"
    and rest: "validate_items n e items url report' = Some (Inr final)"
    by (auto split: option.splits if_splits)
  from try_item_chunks [OF t] obtain c1 where
    c1: "report' = report @ concat c1"
      "\<forall>c\<in>set c1. \<exists>shp ident fs.
            recursiveValidate e (env_hierarchy e) shp ident = Inr fs
            \<and> uniqueBy fs [''property'', ''shape'', ''severity''] = Inr c"
    by blast
  from Cons.IH [OF rest] obtain c2 where
    c2: "final = report' @ concat c2"
      "\<forall>c\<in>set c2. \<exists>shp ident fs.
            recursiveValidate e (env_hierarchy e) shp ident = Inr fs
            \<and> uniqueBy fs [''property'', ''shape'', ''severity''] = Inr c"
    by blast
  show ?case
    using c1 c2 by (intro exI [of _ "c1 @ c2"]) auto
qed

lemma validate_shapes_shift:
  "validate_shapes e shapes report
     = (fst (validate_shapes e shapes []), report @ snd (validate_shapes e shapes []))"
  by (simp add: validate_shapes_result [of e shapes report]
        validate_shapes_result [of e shapes "[]"])

lemma try_item_shift:
  "try_item n e item url report
     = map_option (\<lambda>r. (fst r, report @ snd r)) (try_item n e item url [])"
  using validate_shapes_shift [of e _ report]
  by (simp add: try_item_def split: sum.splits option.splits)

lemma validate_items_shift:
  "validate_items n e items url report
     = map_option (map_sum id ((@) report)) (validate_items n e items url [])"
proof (induction items arbitrary: report)
  case Nil
  show ?case by simp
next
  case (Cons item items)
  show ?case
  proof (cases "try_item n e item url []")
    case None
    with try_item_shift [of n e item url report] show ?thesis by simp
  next
    case (Some r)
    obtain err fs where r: "r = (err, fs)" by (cases r)
    from Some r try_item_shift [of n e item url report]
    have t: "try_item n e item url report = Some (err, report @ fs)" by simp
    have "map_option (map_sum id ((@) report)) (validate_items n e items url fs)
            = validate_items n e items url (report @ fs)"
      using Cons.IH [of fs] Cons.IH [of "report @ fs"]
      by (cases "validate_items n e items url []")
         (simp_all add: option.map_comp sum.map_comp comp_def)
    with Some r t show ?thesis by (cases err) (auto simp: id_def)
  qed
qed

section \<open>removeUrls and the node of a failure\<close>

lemma removeUrls_no_url: "\<not> has_url (removeUrls s)"
proof (induction s rule: removeUrls.induct)
  case (1 s)
  show ?case
  proof (cases "has_url s")
    case True
    with 1 have "\<not> has_url (removeUrls (replace_urls s))" by simp
    with True show ?thesis by (subst removeUrls.simps) simp
  next
    case False
    then show ?thesis by (subst removeUrls.simps) simp
  qed
qed

lemma recursiveValidate_own_tagged:
  assumes "recursiveValidate e (Hierarchy service None) shapeStore ident = Inr own"
    and "f \<in> set own"
  shows "\<exists>v t. f = set_prop (set_prop v ''service'' (Str service)) ''node'' (Str (removeUrls t))
           \<and> (\<exists>st shp vs. validate e st shp ident = Inr vs \<and> v \<in> set vs)"
proof -
  from assms(1) obtain st t fs where
    own: "own = map (\<lambda>failure. set_prop (set_prop failure ''service'' (Str service))
                            ''node'' (Str (removeUrls t))) fs"
    and fs: "fs = [] \<or> (\<exists>shp. validate e st shp ident = Inr fs)"
    by (simp add: Let_def split: option.splits list.splits sum.splits if_splits) blast+
  from own assms(2) obtain v where v: "v \<in> set fs"
    and f: "f = set_prop (set_prop v ''service'' (Str service)) ''node'' (Str (removeUrls t))"
    by auto
  from v fs obtain shp where "validate e st shp ident = Inr fs" by auto
  with v f show ?thesis by blast
qed

lemma recursiveValidate_all_tagged:
  "recursiveValidate e h shapeStore ident = Inr r \<Longrightarrow> f \<in> set r \<Longrightarrow>
   \<exists>v service t. f = set_prop (set_prop v ''service'' (Str service)) ''node'' (Str (removeUrls t))
     \<and> (\<exists>st shp vs. validate e st shp ident = Inr vs \<and> v \<in> set vs)"
proof (induction h arbitrary: r)
  case (Hierarchy service nested)
  from recursiveValidate_structure [OF Hierarchy.prems(1)] obtain own children where
    own: "recursiveValidate e (Hierarchy service None) shapeStore ident = Inr own"
    and ch: "list_all2 (\<lambda>h c. recursiveValidate e h shapeStore ident = Inr c)
               (nested_of nested) children"
    and r: "r = own @ concat (map (filter (\<lambda>x. get_prop x ''property''
                                    \<notin> (\<lambda>f. get_prop f ''property'') ` set own)) children)"
    by blast
  from r Hierarchy.prems(2) consider "f \<in> set own" | c where "c \<in> set children" "f \<in> set c"
    by auto
  then show ?case
  proof cases
    case 1
    from recursiveValidate_own_tagged [OF own 1] show ?thesis by blast
  next
    case 2
    from 2(1) obtain i where i: "i < length children" "children ! i = c"
      by (auto simp: in_set_conv_nth)
    with ch have len: "i < length (nested_of nested)"
      and rc: "recursiveValidate e (nested_of nested ! i) shapeStore ident = Inr c"
      by (auto simp: list_all2_conv_all_nth)
    from len obtain ns where ns: "nested = Some ns" "nested_of nested ! i \<in> set ns"
      by (cases nested) auto
    from Hierarchy.IH [OF _ ns(2) rc 2(2)] ns(1) show ?thesis by simp
  qed
qed

text \<open>
  C5, as amended. A failure of the report is a failure of the validator
  (\<open>validate\<close>) with two fields set: \<open>service\<close>, and \<open>node\<close>, which is a result
  of \<open>removeUrls\<close> and so holds no match of the URL pattern. Its \<open>property\<close> is
  the validator's, as it is.
\<close>

theorem report_node_without_urls:
  assumes "validateSchemaOrg n e data url = Some (Inr report)" and "f \<in> set report"
  shows "\<exists>v service t.
           f = set_prop (set_prop v ''service'' (Str service)) ''node'' (Str (removeUrls t))
           \<and> (\<exists>st shp ident vs. validate e st shp ident = Inr vs \<and> v \<in> set vs)
           \<and> get_prop f ''node'' = Str (removeUrls t)
           \<and> \<not> has_url (removeUrls t)
           \<and> get_prop f ''property'' = get_prop v ''property''"
proof -
  from validate_items_chunks [of n e data url "[]" report] assms(1) obtain chunks where
    "report = concat chunks"
    "\<forall>c\<in>set chunks. \<exists>shp ident fs.
        recursiveValidate e (env_hierarchy e) shp ident = Inr fs
        \<and> uniqueBy fs [''property'', ''shape'', ''severity''] = Inr c"
    by (auto simp: validateSchemaOrg_def)
  with assms(2) obtain shp ident fs c where
    rv: "recursiveValidate e (env_hierarchy e) shp ident = Inr fs"
    and "uniqueBy fs [''property'', ''shape'', ''severity''] = Inr c" and "f \<in> set c"
    by auto
  then have "f \<in> set fs"
    using uniqueBy_subset by blast
  from recursiveValidate_all_tagged [OF rv this] obtain v service t st shp' vs where
    f: "f = set_prop (set_prop v ''service'' (Str service)) ''node'' (Str (removeUrls t))"
    and v: "validate e st shp' ident = Inr vs" "v \<in> set vs"
    by blast
  have "get_prop f ''node'' = Str (removeUrls t)"
    and "get_prop f ''property'' = get_prop v ''property''"
    by (simp_all add: f get_prop_set_prop)
  with f v removeUrls_no_url [of t] show ?thesis by blast
qed

text \<open>The report of the document \<open>one\<close> and its first failure.\<close>

theorem report_node_without_urls_witness:
  "\<exists>v service t.
     ex_failure ''Schema'' ''name''
       = set_prop (set_prop v ''service'' (Str service)) ''node'' (Str (removeUrls t))
     \<and> (\<exists>st shp ident vs. validate ex_env st shp ident = Inr vs \<and> v \<in> set vs)
     \<and> get_prop (ex_failure ''Schema'' ''name'') ''node'' = Str (removeUrls t)
     \<and> \<not> has_url (removeUrls t)
     \<and> get_prop (ex_failure ''Schema'' ''name'') ''property'' = get_prop v ''property''"
proof -
  have "validateSchemaOrg 3 ex_env [''one''] ''http://example.org/''
        = Some (Inr [ex_failure ''Schema'' ''name'', ex_failure ''Google'' ''description''])"
    by code_simp
  then show ?thesis by (rule report_node_without_urls) simp
qed

text \<open>
  Against C5 as stated: the property of that failure is the full IRI, which
  \<open>removeUrls\<close> would cut down to \<open>name\<close>.
\<close>

theorem report_property_with_url_counterexample:
  "validateSchemaOrg 3 ex_env [''one''] ''http://example.org/''
     = Some (Inr [ex_failure ''Schema'' ''name'', ex_failure ''Google'' ''description''])
   \<and> get_prop (ex_failure ''Schema'' ''name'') ''property'' = Str ''http://schema.org/name''
   \<and> has_url ''http://schema.org/name''
   \<and> removeUrls ''http://schema.org/name'' = ''name''"
  by code_simp

section \<open>Depth-first search: what a search adds\<close>

lemma after_append:
  "after (A @ B) y = (if y \<in> set A then after A y \<union> set B else after B y)"
  by (auto simp: after_def dropWhile_append)

lemma after_self: "y \<in> set L \<Longrightarrow> y \<in> after L y"
  by (induction L) (auto simp: after_def)

lemma after_subset: "after L y \<subseteq> set L"
  by (auto simp: after_def dest: set_dropWhileD)

lemma path_exit:
  assumes "(z, y) \<in> (edges E)\<^sup>*" and "z \<in> D" and "y \<notin> D"
    and "\<forall>x\<in>D. set (E x) \<subseteq> U \<union> D"
  shows "\<exists>u\<in>U. (z, u) \<in> (edges E)\<^sup>* \<and> (u, y) \<in> (edges E)\<^sup>*"
  using assms(1,2)
proof (induction rule: converse_rtrancl_induct)
  case base
  with assms(3) show ?case by simp
next
  case (step z z')
  from step.hyps(1) step.prems assms(4) have "z' \<in> U \<union> D"
    by (auto simp: edges_def)
  then show ?case
  proof
    assume "z' \<in> U"
    with step.hyps show ?thesis by (intro bexI [of _ z']) auto
  next
    assume "z' \<in> D"
    from step.IH [OF this] obtain u where "u \<in> U" "(z', u) \<in> (edges E)\<^sup>*" "(u, y) \<in> (edges E)\<^sup>*"
      by blast
    with step.hyps(1) show ?thesis
      by (intro bexI [of _ u]) (auto intro: converse_rtrancl_into_rtrancl)
  qed
qed

lemma pre_ok_grow:
  assumes pre: "pre_ok E U v0" and seg: "seg_ok E U M" 
  shows "pre_ok E (U \<union> set M) v0"
  unfolding pre_ok_def
proof (intro ballI allI impI)
  fix z y assume z: "z \<in> U \<union> set M" and y: "y \<notin> U \<union> set M \<and> (z, y) \<in> (edges E)\<^sup>*"
  show "(z, v0) \<in> (edges E)\<^sup>*"
  proof (cases "z \<in> U")
    case True
    with pre y show ?thesis by (auto simp: pre_ok_def)
  next
    case False
    with z have "z \<in> set M" by simp
    from path_exit [of z y E "set M" U] this y seg obtain u where
      "u \<in> U" "(z, u) \<in> (edges E)\<^sup>*" "(u, y) \<in> (edges E)\<^sup>*"
      by (auto simp: seg_ok_def)
    moreover with pre y have "(u, v0) \<in> (edges E)\<^sup>*" by (auto simp: pre_ok_def)
    ultimately show ?thesis by (auto intro: rtrancl_trans)
  qed
qed

lemma dfs_post_refl: "dfs_post E s s []"
  by (simp add: dfs_post_def seg_ok_def)

lemma dfs_post_trans:
  assumes "dfs_post E s s1 M" and "dfs_post E s1 s2 L"
  shows "dfs_post E s s2 (M @ L)"
proof -
  from assms obtain Lp1 Lp2 where
    p1: "fst (snd s1) = fst (snd s) @ Lp1" "set Lp1 = set M" "distinct Lp1"
    and p2: "fst (snd s2) = fst (snd s1) @ Lp2" "set Lp2 = set L" "distinct Lp2"
    by (auto simp: dfs_post_def)
  from assms have u: "fst s1 = fst s \<union> set M" "fst s2 = fst s1 \<union> set L"
    and sg: "seg_ok E (fst s) M" "seg_ok E (fst s1) L"
    and po: "snd (snd s1) = snd (snd s) @ M" "snd (snd s2) = snd (snd s1) @ L"
    by (auto simp: dfs_post_def)
  from sg u have disj: "set M \<inter> set L = {}" by (auto simp: seg_ok_def)
  have "fst (snd s2) = fst (snd s) @ (Lp1 @ Lp2) \<and> set (Lp1 @ Lp2) = set (M @ L)
        \<and> distinct (Lp1 @ Lp2)"
    using p1 p2 disj by auto
  moreover have "seg_ok E (fst s) (M @ L)"
    using sg u disj by (auto simp: seg_ok_def)
  ultimately show ?thesis
    unfolding dfs_post_def using u po by (intro conjI exI [of _ "Lp1 @ Lp2"]) auto
qed

lemma kos_compose:
  assumes M: "seg_ok E U M" and L: "seg_ok E (U \<union> set M) L"
    and kM: "kos E M {}" and kL: "kos E L {v0}" and pre: "pre_ok E U v0"
  shows "kos E (M @ L) {v0}"
  unfolding kos_def
proof (intro ballI impI)
  fix x y assume x: "x \<in> set (M @ L)" and y: "y \<in> set (M @ L)" and xy: "(x, y) \<in> (edges E)\<^sup>*"
  from M L have disj: "set M \<inter> set L = {}" "set L \<inter> U = {}" "set M \<inter> U = {}"
    by (auto simp: seg_ok_def)
  show "(\<exists>x'\<in>after (M @ L) y. (x, x') \<in> (edges E)\<^sup>* \<and> (x', x) \<in> (edges E)\<^sup>*)
        \<or> (\<exists>t\<in>{v0}. (x, t) \<in> (edges E)\<^sup>*)"
  proof (cases "y \<in> set M")
    case yM: True
    show ?thesis
    proof (cases "x \<in> set M")
      case True
      with yM xy kM obtain x' where "x' \<in> after M y" "(x, x') \<in> (edges E)\<^sup>*" "(x', x) \<in> (edges E)\<^sup>*"
        by (auto simp: kos_def)
      with yM show ?thesis by (auto simp: after_append)
    next
      case False
      with x have "x \<in> set L" by simp
      with yM have "x \<in> after (M @ L) y" by (simp add: after_append)
      then show ?thesis by blast
    qed
  next
    case yM: False
    with y have yL: "y \<in> set L" by simp
    show ?thesis
    proof (cases "x \<in> set M")
      case True
      from M have cl: "\<forall>x\<in>set M. set (E x) \<subseteq> U \<union> set M" by (simp add: seg_ok_def)
      from path_exit [OF xy True yM cl] obtain u where
        u: "u \<in> U" "(x, u) \<in> (edges E)\<^sup>*" "(u, y) \<in> (edges E)\<^sup>*"
        by blast
      from yL disj have "y \<notin> U" by auto
      with u pre have "(u, v0) \<in> (edges E)\<^sup>*" by (auto simp: pre_ok_def)
      with u show ?thesis by (auto intro: rtrancl_trans)
    next
      case False
      with x have "x \<in> set L" by simp
      with yL xy kL have "(\<exists>x'\<in>after L y. (x, x') \<in> (edges E)\<^sup>* \<and> (x', x) \<in> (edges E)\<^sup>*)
          \<or> (x, v0) \<in> (edges E)\<^sup>*"
        by (auto simp: kos_def)
      with yM show ?thesis by (auto simp: after_append)
    qed
  qed
qed

lemma kos_finish:
  assumes L: "seg_ok E (insert v U) L" and k: "kos E L {v}"
    and reach: "\<forall>x\<in>set L. (v, x) \<in> (edges E)\<^sup>*"
  shows "kos E (L @ [v]) {}"
  unfolding kos_def
proof (intro ballI impI)
  fix x y assume x: "x \<in> set (L @ [v])" and y: "y \<in> set (L @ [v])" and xy: "(x, y) \<in> (edges E)\<^sup>*"
  from L have vL: "v \<notin> set L" by (auto simp: seg_ok_def)
  from x reach have vx: "(v, x) \<in> (edges E)\<^sup>*" by auto
  have "\<exists>x'\<in>after (L @ [v]) y. (x, x') \<in> (edges E)\<^sup>* \<and> (x', x) \<in> (edges E)\<^sup>*"
  proof (cases "y \<in> set L")
    case False
    with y have "y = v" by simp
    with vL have "v \<in> after (L @ [v]) y" by (simp add: after_append) (simp add: after_def)
    with xy vx \<open>y = v\<close> show ?thesis by blast
  next
    case yL: True
    then have av: "v \<in> after (L @ [v]) y" by (simp add: after_append)
    show ?thesis
    proof (cases "x \<in> set L")
      case False
      with x have "x = v" by simp
      with av show ?thesis by blast
    next
      case True
      with yL xy k have "(\<exists>x'\<in>after L y. (x, x') \<in> (edges E)\<^sup>* \<and> (x', x) \<in> (edges E)\<^sup>*)
          \<or> (x, v) \<in> (edges E)\<^sup>*"
        by (auto simp: kos_def)
      then show ?thesis
      proof
        assume "\<exists>x'\<in>after L y. (x, x') \<in> (edges E)\<^sup>* \<and> (x', x) \<in> (edges E)\<^sup>*"
        with yL show ?thesis by (auto simp: after_append)
      next
        assume "(x, v) \<in> (edges E)\<^sup>*"
        with vx av show ?thesis by blast
      qed
    qed
  qed
  then show "(\<exists>x'\<in>after (L @ [v]) y. (x, x') \<in> (edges E)\<^sup>* \<and> (x', x) \<in> (edges E)\<^sup>*)
        \<or> (\<exists>t\<in>{}. (x, t) \<in> (edges E)\<^sup>*)" by blast
qed

lemma adfs_spec:
  "adfs n E v s = Some s' \<Longrightarrow> v \<notin> fst s \<Longrightarrow>
     \<exists>L. dfs_post E s s' L \<and> v \<in> set L \<and> (\<forall>x\<in>set L. (v, x) \<in> (edges E)\<^sup>*)
          \<and> (pre_ok E (fst s) v \<longrightarrow> kos E L {})"
  "adfs_succs n E ws s = Some s' \<Longrightarrow>
     \<exists>L. dfs_post E s s' L \<and> set ws \<subseteq> fst s'
          \<and> (\<forall>x\<in>set L. \<exists>w\<in>set ws. (w, x) \<in> (edges E)\<^sup>*)
          \<and> (\<forall>v0. v0 \<in> fst s \<and> set ws \<subseteq> set (E v0) \<and> pre_ok E (fst s) v0 \<longrightarrow> kos E L {v0})"
proof (induction n E v s and n E ws s arbitrary: s' and s' rule: adfs_adfs_succs.induct)
  case (1 E v s)
  then show ?case by simp
next
  case (2 n E v s)
  let ?s0 = "(insert v (fst s), fst (snd s) @ [v], snd (snd s))"
  from "2.prems"(1) obtain s1 where s1: "adfs_succs n E (E v) ?s0 = Some s1"
    and s': "s' = (fst s1, fst (snd s1), snd (snd s1) @ [v])"
    by (auto split: option.splits)
  from "2.IH" [OF s1] obtain L where
    post: "dfs_post E ?s0 s1 L" and sub: "set (E v) \<subseteq> fst s1"
    and reach: "\<forall>x\<in>set L. \<exists>w\<in>set (E v). (w, x) \<in> (edges E)\<^sup>*"
    and k: "\<forall>v0. v0 \<in> fst ?s0 \<and> set (E v) \<subseteq> set (E v0) \<and> pre_ok E (fst ?s0) v0 \<longrightarrow> kos E L {v0}"
    by blast
  from post have sg: "seg_ok E (insert v (fst s)) L" and u1: "fst s1 = insert v (fst s) \<union> set L"
    and p1: "snd (snd s1) = snd (snd s) @ L"
    by (auto simp: dfs_post_def)
  from post obtain Lp where Lp: "fst (snd s1) = (fst (snd s) @ [v]) @ Lp" "set Lp = set L" "distinct Lp"
    by (auto simp: dfs_post_def)
  from sg have vL: "v \<notin> set L" by (auto simp: seg_ok_def)
  have vreach: "\<forall>x\<in>set L. (v, x) \<in> (edges E)\<^sup>*"
  proof
    fix x assume "x \<in> set L"
    with reach obtain w where "w \<in> set (E v)" "(w, x) \<in> (edges E)\<^sup>*" by blast
    then show "(v, x) \<in> (edges E)\<^sup>*"
      by (auto simp: edges_def intro: converse_rtrancl_into_rtrancl)
  qed
  have "dfs_post E s s' (L @ [v])"
    unfolding dfs_post_def
  proof (intro conjI)
    show "snd (snd s') = snd (snd s) @ L @ [v]" using s' p1 by simp
    show "\<exists>Lp. fst (snd s') = fst (snd s) @ Lp \<and> set Lp = set (L @ [v]) \<and> distinct Lp"
      using s' Lp vL by (intro exI [of _ "v # Lp"]) auto
    show "fst s' = fst s \<union> set (L @ [v])" using s' u1 by auto
    show "seg_ok E (fst s) (L @ [v])"
      using sg sub u1 "2.prems"(2) by (auto simp: seg_ok_def)
  qed
  moreover have "pre_ok E (fst s) v \<longrightarrow> kos E (L @ [v]) {}"
  proof
    assume pre: "pre_ok E (fst s) v"
    have "pre_ok E (insert v (fst s)) v"
      using pre by (auto simp: pre_ok_def)
    with k have "kos E L {v}" by simp
    then show "kos E (L @ [v]) {}" by (rule kos_finish [OF sg _ vreach])
  qed
  ultimately show ?case using vreach by (intro exI [of _ "L @ [v]"]) auto
next
  case (3 n E s)
  then show ?case by (intro exI [of _ "[]"]) (auto simp: dfs_post_refl kos_def)
next
  case (4 n E w ws s)
  show ?case
  proof (cases "w \<in> fst s")
    case True
    with "4.prems" have r: "adfs_succs n E ws s = Some s'" by simp
    from "4.IH"(3) [OF _ r] True obtain L where
      L: "dfs_post E s s' L" "set ws \<subseteq> fst s'"
        "\<forall>x\<in>set L. \<exists>w\<in>set ws. (w, x) \<in> (edges E)\<^sup>*"
        "\<forall>v0. v0 \<in> fst s \<and> set ws \<subseteq> set (E v0) \<and> pre_ok E (fst s) v0 \<longrightarrow> kos E L {v0}"
      by blast
    from L(1) True have "w \<in> fst s'" by (auto simp: dfs_post_def)
    with L show ?thesis by (intro exI [of _ L]) auto
  next
    case False
    with "4.prems" obtain s1 where s1: "adfs n E w s = Some s1"
      and r: "adfs_succs n E ws s1 = Some s'"
      by (auto split: option.splits)
    from "4.IH"(1) [OF _ s1] False obtain M where
      M: "dfs_post E s s1 M" "w \<in> set M" "\<forall>x\<in>set M. (w, x) \<in> (edges E)\<^sup>*"
        "pre_ok E (fst s) w \<longrightarrow> kos E M {}"
      by blast
    from "4.IH"(2) [OF _ s1 r] False obtain L where
      L: "dfs_post E s1 s' L" "set ws \<subseteq> fst s'"
        "\<forall>x\<in>set L. \<exists>w\<in>set ws. (w, x) \<in> (edges E)\<^sup>*"
        "\<forall>v0. v0 \<in> fst s1 \<and> set ws \<subseteq> set (E v0) \<and> pre_ok E (fst s1) v0 \<longrightarrow> kos E L {v0}"
      by blast
    from M(1) L(1) have post: "dfs_post E s s' (M @ L)" by (rule dfs_post_trans)
    from M(1) have u1: "fst s1 = fst s \<union> set M" and sgM: "seg_ok E (fst s) M"
      by (auto simp: dfs_post_def)
    from L(1) have u2: "fst s' = fst s1 \<union> set L" and sgL: "seg_ok E (fst s1) L"
      by (auto simp: dfs_post_def)
    have "\<forall>v0. v0 \<in> fst s \<and> set (w # ws) \<subseteq> set (E v0) \<and> pre_ok E (fst s) v0
            \<longrightarrow> kos E (M @ L) {v0}"
    proof (intro allI impI)
      fix v0 assume a: "v0 \<in> fst s \<and> set (w # ws) \<subseteq> set (E v0) \<and> pre_ok E (fst s) v0"
      then have pre: "pre_ok E (fst s) v0" and wv: "(v0, w) \<in> edges E"
        by (auto simp: edges_def)
      have "pre_ok E (fst s) w"
        unfolding pre_ok_def
      proof (intro ballI allI impI)
        fix z y assume "z \<in> fst s" "y \<notin> fst s \<and> (z, y) \<in> (edges E)\<^sup>*"
        with pre have "(z, v0) \<in> (edges E)\<^sup>*" by (auto simp: pre_ok_def)
        with wv show "(z, w) \<in> (edges E)\<^sup>*" by (auto intro: rtrancl_into_rtrancl)
      qed
      with M(4) have kM: "kos E M {}" by simp
      from pre sgM have "pre_ok E (fst s1) v0" unfolding u1 by (rule pre_ok_grow)
      with L(4) a u1 have kL: "kos E L {v0}" by auto
      from sgM sgL [unfolded u1] kM kL pre show "kos E (M @ L) {v0}" by (rule kos_compose)
    qed
    moreover have "set (w # ws) \<subseteq> fst s'" using M(2) L(2) u1 u2 by auto
    moreover have "\<forall>x\<in>set (M @ L). \<exists>w'\<in>set (w # ws). (w', x) \<in> (edges E)\<^sup>*"
      using M(3) L(3) by auto
    ultimately show ?thesis using post by (intro exI [of _ "M @ L"]) blast
  qed
qed

lemma closed_reach:
  assumes "(z, y) \<in> (edges E)\<^sup>*" and "z \<in> U" and "\<forall>x\<in>U. set (E x) \<subseteq> U"
  shows "y \<in> U"
  using assms(1,2)
  by (induction rule: rtrancl_induct) (use assms(3) in \<open>auto simp: edges_def\<close>)

lemma kos_top:
  assumes cl: "\<forall>x\<in>set P. set (E x) \<subseteq> set P" and M: "seg_ok E (set P) M"
    and kP: "kos E P {}" and kM: "kos E M {}"
  shows "kos E (P @ M) {}"
  unfolding kos_def
proof (intro ballI impI)
  fix x y assume x: "x \<in> set (P @ M)" and y: "y \<in> set (P @ M)" and xy: "(x, y) \<in> (edges E)\<^sup>*"
  from M have disj: "set M \<inter> set P = {}" by (auto simp: seg_ok_def)
  have "\<exists>x'\<in>after (P @ M) y. (x, x') \<in> (edges E)\<^sup>* \<and> (x', x) \<in> (edges E)\<^sup>*"
  proof (cases "y \<in> set P")
    case yP: True
    show ?thesis
    proof (cases "x \<in> set P")
      case True
      with yP xy kP obtain x' where "x' \<in> after P y" "(x, x') \<in> (edges E)\<^sup>*" "(x', x) \<in> (edges E)\<^sup>*"
        by (auto simp: kos_def)
      with yP show ?thesis by (auto simp: after_append)
    next
      case False
      with x have "x \<in> set M" by simp
      with yP have "x \<in> after (P @ M) y" by (simp add: after_append)
      then show ?thesis by blast
    qed
  next
    case yP: False
    with y have yM: "y \<in> set M" by simp
    have "x \<notin> set P"
    proof
      assume "x \<in> set P"
      from closed_reach [OF xy this cl] yP show False by simp
    qed
    with x have "x \<in> set M" by simp
    with yM xy kM obtain x' where "x' \<in> after M y" "(x, x') \<in> (edges E)\<^sup>*" "(x', x) \<in> (edges E)\<^sup>*"
      by (auto simp: kos_def)
    with yP show ?thesis by (auto simp: after_append)
  qed
  then show "(\<exists>x'\<in>after (P @ M) y. (x, x') \<in> (edges E)\<^sup>* \<and> (x', x) \<in> (edges E)\<^sup>*)
        \<or> (\<exists>t\<in>{}. (x, t) \<in> (edges E)\<^sup>*)" by blast
qed

lemma adfs_mono:
  "adfs n E v s = Some s' \<Longrightarrow> fst s \<subseteq> fst s'"
  "adfs_succs n E ws s = Some s' \<Longrightarrow> fst s \<subseteq> fst s'"
proof (induction n E v s and n E ws s arbitrary: s' and s' rule: adfs_adfs_succs.induct)
  case (1 E v s)
  then show ?case by simp
next
  case (2 n E v s)
  from "2.prems" obtain s1 where
    "adfs_succs n E (E v) (insert v (fst s), fst (snd s) @ [v], snd (snd s)) = Some s1"
    and "fst s' = fst s1"
    by (auto split: option.splits)
  with "2.IH" [of s1] show ?case by auto
next
  case (3 n E s)
  then show ?case by simp
next
  case (4 n E w ws s)
  show ?case
  proof (cases "w \<in> fst s")
    case True
    with 4 show ?thesis by simp
  next
    case False
    with "4.prems" obtain s1 where s1: "adfs n E w s = Some s1"
      and r: "adfs_succs n E ws s1 = Some s'"
      by (auto split: option.splits)
    from "4.IH"(1) [OF False s1] "4.IH"(2) [OF False s1 r] show ?thesis by auto
  qed
qed

lemma adfs_top:
  assumes "adfs_succs n E vs s = Some s'"
    and "\<forall>x\<in>fst s. set (E x) \<subseteq> fst s" and "fst s = set (snd (snd s))"
    and "distinct (snd (snd s))" and "kos E (snd (snd s)) {}"
  shows "(\<forall>x\<in>fst s'. set (E x) \<subseteq> fst s') \<and> fst s' = set (snd (snd s'))
         \<and> distinct (snd (snd s')) \<and> kos E (snd (snd s')) {} \<and> set vs \<subseteq> fst s'
         \<and> (\<forall>x\<in>fst s'. x \<in> fst s \<or> (\<exists>w\<in>set vs. (w, x) \<in> (edges E)\<^sup>*))"
  using assms
proof (induction vs arbitrary: s)
  case Nil
  then show ?case by simp
next
  case (Cons v vs)
  show ?case
  proof (cases "v \<in> fst s")
    case True
    with Cons.prems(1) have "adfs_succs n E vs s = Some s'" by simp
    from Cons.IH [OF this Cons.prems(2-5)] True adfs_mono(2) [OF this] show ?thesis by auto
  next
    case False
    with Cons.prems(1) obtain s1 where s1: "adfs n E v s = Some s1"
      and r: "adfs_succs n E vs s1 = Some s'"
      by (auto split: option.splits)
    have pre: "pre_ok E (fst s) v"
      unfolding pre_ok_def using closed_reach [OF _ _ Cons.prems(2)] by blast
    from adfs_spec(1) [OF s1 False] pre obtain M where
      M: "dfs_post E s s1 M" "v \<in> set M" "\<forall>x\<in>set M. (v, x) \<in> (edges E)\<^sup>*" "kos E M {}"
      by blast
    from M(1) have u1: "fst s1 = fst s \<union> set M" and sg: "seg_ok E (fst s) M"
      and p1: "snd (snd s1) = snd (snd s) @ M"
      by (auto simp: dfs_post_def)
    have a: "\<forall>x\<in>fst s1. set (E x) \<subseteq> fst s1"
      using Cons.prems(2) sg u1 by (auto simp: seg_ok_def)
    have b: "fst s1 = set (snd (snd s1))" using u1 p1 Cons.prems(3) by simp
    have c: "distinct (snd (snd s1))"
      using p1 Cons.prems(3,4) sg by (auto simp: seg_ok_def)
    have d: "kos E (snd (snd s1)) {}"
      unfolding p1 using Cons.prems(2,3,5) sg M(4) by (intro kos_top) auto
    from Cons.IH [OF r a b c d] have
      IH: "(\<forall>x\<in>fst s'. set (E x) \<subseteq> fst s')" "fst s' = set (snd (snd s'))"
        "distinct (snd (snd s'))" "kos E (snd (snd s')) {}" "set vs \<subseteq> fst s'"
        "\<forall>x\<in>fst s'. x \<in> fst s1 \<or> (\<exists>w\<in>set vs. (w, x) \<in> (edges E)\<^sup>*)"
      by auto
    from r have mono: "fst s1 \<subseteq> fst s'" by (rule adfs_mono(2))
    have "\<forall>x\<in>fst s'. x \<in> fst s \<or> (\<exists>w\<in>set (v # vs). (w, x) \<in> (edges E)\<^sup>*)"
      using IH(6) u1 M(3) by auto
    moreover have "set (v # vs) \<subseteq> fst s'" using IH(5) M(2) u1 mono by auto
    ultimately show ?thesis using IH(1-4) by blast
  qed
qed

lemma adfs_fuel:
  "finite V \<Longrightarrow> \<forall>x\<in>V. set (E x) \<subseteq> V \<Longrightarrow> v \<in> V \<Longrightarrow> v \<notin> fst s \<Longrightarrow> card (V - fst s) \<le> n
     \<Longrightarrow> adfs n E v s \<noteq> None"
  "finite V \<Longrightarrow> \<forall>x\<in>V. set (E x) \<subseteq> V \<Longrightarrow> set ws \<subseteq> V \<Longrightarrow> card (V - fst s) \<le> n
     \<Longrightarrow> adfs_succs n E ws s \<noteq> None"
proof (induction n E v s and n E ws s rule: adfs_adfs_succs.induct)
  case (1 E v s)
  then have "v \<in> V - fst s" by simp
  with "1.prems"(1) have "card (V - fst s) > 0" by (auto simp: card_gt_0_iff)
  with "1.prems"(5) show ?case by linarith
next
  case (2 n E v s)
  from "2.prems" have "card (V - insert v (fst s)) < card (V - fst s)"
    by (intro psubset_card_mono) auto
  with "2.prems" have c: "card (V - insert v (fst s)) \<le> n" by simp
  from "2.prems" have "set (E v) \<subseteq> V" by blast
  from "2.IH" [OF "2.prems"(1,2) this] c show ?case by (auto split: option.splits)
next
  case (3 n E s)
  then show ?case by simp
next
  case (4 n E w ws s)
  show ?case
  proof (cases "w \<in> fst s")
    case True
    with 4 show ?thesis by simp
  next
    case False
    with "4.IH"(1) "4.prems" obtain s1 where s1: "adfs n E w s = Some s1" by auto
    from adfs_mono(1) [OF s1] "4.prems"(1) have "card (V - fst s1) \<le> card (V - fst s)"
      by (intro card_mono) auto
    with "4.IH"(2) [OF False s1] "4.prems" s1 False show ?thesis by simp
  qed
qed

lemma reverse_path:
  assumes rev: "\<forall>x\<in>V. \<forall>y. y \<in> set (Er x) \<longleftrightarrow> x \<in> set (E y)"
    and EV: "\<forall>x y. y \<in> set (E x) \<longrightarrow> x \<in> V \<and> y \<in> V"
    and "(v, x) \<in> (edges Er)\<^sup>*" and "v \<in> V"
  shows "x \<in> V \<and> (x, v) \<in> (edges E)\<^sup>*"
  using assms(3)
proof (induction rule: rtrancl_induct)
  case base
  from assms(4) show ?case by simp
next
  case (step a b)
  from step.IH have a: "a \<in> V" "(a, v) \<in> (edges E)\<^sup>*" by auto
  from step.hyps(2) a(1) rev have "a \<in> set (E b)" by (auto simp: edges_def)
  with EV a(2) show ?case
    by (auto simp: edges_def intro: converse_rtrancl_into_rtrancl)
qed

lemma backward_scc:
  assumes rev: "\<forall>x\<in>V. \<forall>y. y \<in> set (Er x) \<longleftrightarrow> x \<in> set (E y)"
    and EV: "\<forall>x y. y \<in> set (E x) \<longrightarrow> x \<in> V \<and> y \<in> V"
    and W: "kos E ord {}" and ordV: "set ord = V"
    and Ucl: "\<forall>x\<in>U. \<forall>y. (x, y) \<in> (edges E)\<^sup>* \<and> (y, x) \<in> (edges E)\<^sup>* \<longrightarrow> y \<in> U"
    and v: "v \<in> V" "v \<notin> U" and last: "after ord v \<subseteq> insert v U"
    and run: "adfs n Er v (U, pre, post) = Some s'"
  shows "\<exists>Lp. fst (snd s') = pre @ Lp \<and> distinct Lp \<and> fst s' = U \<union> set Lp
           \<and> set Lp = {y. (v, y) \<in> (edges E)\<^sup>* \<and> (y, v) \<in> (edges E)\<^sup>*}"
proof -
  from adfs_spec(1) [OF run] v(2) obtain L where
    post: "dfs_post Er (U, pre, post) s' L" and vL: "v \<in> set L"
    and reach: "\<forall>x\<in>set L. (v, x) \<in> (edges Er)\<^sup>*"
    by auto
  from post obtain Lp where Lp: "fst (snd s') = pre @ Lp" "set Lp = set L" "distinct Lp"
    by (auto simp: dfs_post_def)
  from post have u: "fst s' = U \<union> set L" and sg: "seg_ok Er U L"
    by (auto simp: dfs_post_def)
  have "set L = {y. (v, y) \<in> (edges E)\<^sup>* \<and> (y, v) \<in> (edges E)\<^sup>*}"
  proof (intro set_eqI iffI CollectI)
    fix x assume xL: "x \<in> set L"
    with reach have "(v, x) \<in> (edges Er)\<^sup>*" by simp
    from reverse_path [OF rev EV this v(1)] have xV: "x \<in> V" and xv: "(x, v) \<in> (edges E)\<^sup>*"
      by auto
    from xV v(1) ordV W xv obtain x' where
      x': "x' \<in> after ord v" "(x, x') \<in> (edges E)\<^sup>*" "(x', x) \<in> (edges E)\<^sup>*"
      by (auto simp: kos_def)
    have "x' = v"
    proof (rule ccontr)
      assume "x' \<noteq> v"
      with x'(1) last have "x' \<in> U" by auto
      with Ucl x'(2,3) have "x \<in> U" by blast
      with xL sg show False by (auto simp: seg_ok_def)
    qed
    with x' xv show "(v, x) \<in> (edges E)\<^sup>* \<and> (x, v) \<in> (edges E)\<^sup>*" by simp
  next
    fix y assume "y \<in> {y. (v, y) \<in> (edges E)\<^sup>* \<and> (y, v) \<in> (edges E)\<^sup>*}"
    then have yv: "(y, v) \<in> (edges E)\<^sup>*" and vy: "(v, y) \<in> (edges E)\<^sup>*" by auto
    from yv vy show "y \<in> set L"
    proof (induction rule: converse_rtrancl_induct)
      case base
      from vL show ?case .
    next
      case (step y z)
      from step.prems step.hyps(1) have vz: "(v, z) \<in> (edges E)\<^sup>*"
        by (auto intro: rtrancl_into_rtrancl)
      from step.IH [OF vz] have zL: "z \<in> set L" .
      with reach have "(v, z) \<in> (edges Er)\<^sup>*" by simp
      from reverse_path [OF rev EV this v(1)] have "z \<in> V" by simp
      with rev step.hyps(1) have "y \<in> set (Er z)" by (auto simp: edges_def)
      with zL sg have "y \<in> U \<union> set L" by (auto simp: seg_ok_def)
      moreover have "y \<notin> U"
      proof
        assume "y \<in> U"
        moreover from step.hyps have "(y, v) \<in> (edges E)\<^sup>*"
          by (auto intro: converse_rtrancl_into_rtrancl)
        ultimately have "v \<in> U" using Ucl step.prems by blast
        with v(2) show False by simp
      qed
      ultimately show ?case by simp
    qed
  qed
  with Lp u show ?thesis by (intro exI [of _ Lp]) auto
qed

section \<open>stronglyConnectedComponents: the closures are searches\<close>

lemma used_set_True: "used_set (map_set v True used) = insert v (used_set used)"
  by (auto simp: used_set_def map_set_def map_get_def update_conv')

lemma used_set_False: "used_set (map_set v False used) = used_set used - {v}"
  by (auto simp: used_set_def map_set_def map_get_def update_conv')

lemma used_set_reset: "used_set (reset_used nodes used) = used_set used - set nodes"
  unfolding reset_used_def
  by (induction nodes arbitrary: used) (auto simp: used_set_False)

lemma not_used_iff: "map_get used x \<noteq> Some True \<longleftrightarrow> x \<notin> used_set used"
  by (simp add: used_set_def)

lemma forwardDfs_adfs:
  "used_set (fst c) = fst a \<Longrightarrow> snd c = snd (snd a) \<Longrightarrow>
   rel_option (\<lambda>c' a'. used_set (fst c') = fst a' \<and> snd c' = snd (snd a'))
     (forwardDfs n st nodes v c) (adfs n (forward_succs st nodes) v a)"
  "used_set (fst c) = fst a \<Longrightarrow> snd c = snd (snd a) \<Longrightarrow>
   rel_option (\<lambda>c' a'. used_set (fst c') = fst a' \<and> snd c' = snd (snd a'))
     (forwardDfs_quads n st nodes qs c)
     (adfs_succs n (forward_succs st nodes)
        (map (\<lambda>q. tid (object q))
           (filter (\<lambda>q. termType (object q) \<noteq> Literal \<and> tid (object q) \<in> set nodes) qs)) a)"
proof (induction n st nodes v c and n st nodes qs c arbitrary: a and a
       rule: forwardDfs_forwardDfs_quads.induct)
  case (1 st nodes vertex s)
  show ?case by simp
next
  case (2 n st nodes vertex s)
  let ?c0 = "(map_set vertex True (fst s), snd s)"
  let ?a0 = "(insert vertex (fst a), fst (snd a) @ [vertex], snd (snd a))"
  have "rel_option (\<lambda>c' a'. used_set (fst c') = fst a' \<and> snd c' = snd (snd a'))
          (forwardDfs_quads n st nodes (getQuads st (Some vertex) None None) ?c0)
          (adfs_succs n (forward_succs st nodes) (forward_succs st nodes vertex) ?a0)"
    unfolding forward_succs_def [of st nodes vertex]
    using "2.prems" by (intro "2.IH") (simp_all add: used_set_True)
  then show ?case
    by (cases rule: option.rel_cases) auto
next
  case (3 n st nodes s)
  then show ?case by simp
next
  case (4 n st nodes q qs s)
  show ?case
  proof (cases "termType (object q) \<noteq> Literal \<and> tid (object q) \<in> set nodes")
    case False
    with "4.IH"(3) [OF _ "4.prems"] show ?thesis by auto
  next
    case cond: True
    show ?thesis
    proof (cases "tid (object q) \<in> fst a")
      case True
      with cond "4.prems" have "\<not> (termType (object q) \<noteq> Literal \<and> tid (object q) \<in> set nodes
              \<and> map_get (fst s) (tid (object q)) \<noteq> Some True)"
        by (simp add: not_used_iff)
      from "4.IH"(3) [OF this "4.prems"] this True cond show ?thesis by simp
    next
      case False
      with cond "4.prems" have go: "termType (object q) \<noteq> Literal \<and> tid (object q) \<in> set nodes
              \<and> map_get (fst s) (tid (object q)) \<noteq> Some True"
        by (simp add: not_used_iff)
      from "4.IH"(1) [OF go "4.prems"]
      have "rel_option (\<lambda>c' a'. used_set (fst c') = fst a' \<and> snd c' = snd (snd a'))
              (forwardDfs n st nodes (tid (object q)) s)
              (adfs n (forward_succs st nodes) (tid (object q)) a)" .
      then show ?thesis
      proof (cases rule: option.rel_cases)
        case None
        with go False cond show ?thesis by simp
      next
        case (Some c1 a1)
        from "4.IH"(2) [OF go Some(1), of a1] Some go False cond show ?thesis by simp
      qed
    qed
  qed
qed

lemma forward_pass_adfs:
  "used_set (fst c) = fst a \<Longrightarrow> snd c = snd (snd a) \<Longrightarrow>
   rel_option (\<lambda>c' a'. used_set (fst c') = fst a' \<and> snd c' = snd (snd a'))
     (forward_pass n st nodes vs c) (adfs_succs n (forward_succs st nodes) vs a)"
proof (induction vs arbitrary: c a)
  case Nil
  then show ?case by simp
next
  case (Cons v vs)
  show ?case
  proof (cases "v \<in> fst a")
    case True
    with Cons.prems Cons.IH [OF Cons.prems] show ?thesis by (simp add: not_used_iff)
  next
    case False
    from forwardDfs_adfs(1) [OF Cons.prems, of n st nodes v]
    show ?thesis
    proof (cases rule: option.rel_cases)
      case None
      with False Cons.prems show ?thesis by (simp add: not_used_iff)
    next
      case (Some c1 a1)
      with Cons.IH [of c1 a1] False Cons.prems show ?thesis by (simp add: not_used_iff)
    qed
  qed
qed

lemma backwardDfs_adfs:
  "used_set (fst c) = fst a \<Longrightarrow> snd c = fst (snd a) \<Longrightarrow>
   rel_option (\<lambda>c' a'. used_set (fst c') = fst a' \<and> snd c' = fst (snd a'))
     (backwardDfs n st v c) (adfs n (backward_succs st) v a)"
  "used_set (fst c) = fst a \<Longrightarrow> snd c = fst (snd a) \<Longrightarrow>
   rel_option (\<lambda>c' a'. used_set (fst c') = fst a' \<and> snd c' = fst (snd a'))
     (backwardDfs_quads n st qs c)
     (adfs_succs n (backward_succs st) (map (\<lambda>q. tid (subject q)) qs) a)"
proof (induction n st v c and n st qs c arbitrary: a and a
       rule: backwardDfs_backwardDfs_quads.induct)
  case (1 st vertex s)
  show ?case by simp
next
  case (2 n st vertex s)
  let ?c0 = "(map_set vertex True (fst s), snd s @ [vertex])"
  let ?a0 = "(insert vertex (fst a), fst (snd a) @ [vertex], snd (snd a))"
  have "rel_option (\<lambda>c' a'. used_set (fst c') = fst a' \<and> snd c' = fst (snd a'))
          (backwardDfs_quads n st (getQuads st None None (Some vertex)) ?c0)
          (adfs_succs n (backward_succs st) (backward_succs st vertex) ?a0)"
    unfolding backward_succs_def [of st vertex]
    using "2.prems" by (intro "2.IH") (simp_all add: used_set_True)
  then show ?case
    by (cases rule: option.rel_cases) auto
next
  case (3 n st s)
  then show ?case by simp
next
  case (4 n st q qs s)
  show ?case
  proof (cases "tid (subject q) \<in> fst a")
    case True
    with "4.prems" have "\<not> map_get (fst s) (tid (subject q)) \<noteq> Some True"
      by (simp add: not_used_iff)
    from "4.IH"(3) [OF this "4.prems"] this True show ?thesis by simp
  next
    case False
    with "4.prems" have go: "map_get (fst s) (tid (subject q)) \<noteq> Some True"
      by (simp add: not_used_iff)
    from "4.IH"(1) [OF go "4.prems"]
    have "rel_option (\<lambda>c' a'. used_set (fst c') = fst a' \<and> snd c' = fst (snd a'))
            (backwardDfs n st (tid (subject q)) s)
            (adfs n (backward_succs st) (tid (subject q)) a)" .
    then show ?thesis
    proof (cases rule: option.rel_cases)
      case None
      with go False show ?thesis by simp
    next
      case (Some c1 a1)
      from "4.IH"(2) [OF go Some(1), of a1] Some go False show ?thesis by simp
    qed
  qed
qed

section \<open>stronglyConnectedComponents: vertices and edges of a store\<close>

lemma set_spread_set: "set (set_spread acc xs) = set acc \<union> set xs"
  by (induction xs arbitrary: acc) auto

lemma set_spread_distinct: "distinct acc \<Longrightarrow> distinct (set_spread acc xs)"
  by (induction xs arbitrary: acc) auto

lemma nodes_subject_ids:
  "set (set_spread [] (map tid (getSubjects st))) = subject_ids st"
  by (auto simp: set_spread_set getSubjects_def subject_ids_def)

lemma nodes_length: "length (set_spread [] (map tid (getSubjects st))) \<le> length st"
proof -
  have "length (set_spread acc xs) \<le> length acc + length xs" for acc xs :: "string list"
  proof (induction xs arbitrary: acc)
    case Nil
    show ?case by simp
  next
    case (Cons a xs)
    from Cons [of acc] Cons [of "acc @ [a]"] show ?case by auto
  qed
  from this [of "[]" "map tid (getSubjects st)"] show ?thesis
    by (simp add: getSubjects_def)
qed

lemma forward_succs_nodes: "set (forward_succs st nodes v) \<subseteq> set nodes"
  by (auto simp: forward_succs_def)

lemma forward_succs_source:
  "y \<in> set (forward_succs st nodes x) \<Longrightarrow> x \<in> subject_ids st"
  by (auto simp: forward_succs_def getQuads_def subject_ids_def)

lemma backward_succs_subjects: "set (backward_succs st v) \<subseteq> subject_ids st"
  by (auto simp: backward_succs_def getQuads_def subject_ids_def)

lemma backward_forward:
  assumes "literals_apart st" and "set nodes = subject_ids st" and "x \<in> set nodes"
  shows "y \<in> set (backward_succs st x) \<longleftrightarrow> x \<in> set (forward_succs st nodes y)"
  using assms
  by (auto simp: backward_succs_def forward_succs_def getQuads_def literals_apart_def)

lemma forward_edges_store:
  assumes "set nodes = subject_ids st" and "y \<in> set nodes"
  shows "(x, y) \<in> (store_edges st)\<^sup>* \<longleftrightarrow> (x, y) \<in> (edges (forward_succs st nodes))\<^sup>*"
proof
  assume "(x, y) \<in> (store_edges st)\<^sup>*"
  then have "y \<in> set nodes \<longrightarrow> (x, y) \<in> (edges (forward_succs st nodes))\<^sup>*"
  proof (induction rule: rtrancl_induct)
    case base
    show ?case by simp
  next
    case (step b c)
    show ?case
    proof
      assume c: "c \<in> set nodes"
      from step.hyps(2) have "b \<in> subject_ids st"
        by (auto simp: store_edges_def subject_ids_def)
      with step.IH assms(1) have "(x, b) \<in> (edges (forward_succs st nodes))\<^sup>*" by simp
      moreover from step.hyps(2) c have "(b, c) \<in> edges (forward_succs st nodes)"
        by (auto simp: store_edges_def edges_def forward_succs_def getQuads_def)
      ultimately show "(x, c) \<in> (edges (forward_succs st nodes))\<^sup>*" by simp
    qed
  qed
  with assms(2) show "(x, y) \<in> (edges (forward_succs st nodes))\<^sup>*" by simp
next
  assume "(x, y) \<in> (edges (forward_succs st nodes))\<^sup>*"
  moreover have "edges (forward_succs st nodes) \<subseteq> store_edges st"
    by (auto simp: store_edges_def edges_def forward_succs_def getQuads_def)
  ultimately show "(x, y) \<in> (store_edges st)\<^sup>*"
    using rtrancl_mono by blast
qed

lemma forward_phase:
  assumes run: "forward_pass n st nodes nodes (reset_used nodes [], []) = Some (used1, order)"
  shows "set order = set nodes \<and> distinct order \<and> used_set used1 = set order
         \<and> kos (forward_succs st nodes) order {}"
proof -
  let ?E = "forward_succs st nodes"
  have "used_set (fst (reset_used nodes [], [])) = fst ({}, [], [])"
    by (simp add: used_set_reset) (simp add: used_set_def map_get_def)
  from forward_pass_adfs [OF this, of n st nodes nodes] run obtain a1 where
    a1: "adfs_succs n ?E nodes ({}, [], []) = Some a1"
    and rel: "used_set used1 = fst a1" "order = snd (snd a1)"
    by (auto simp: option_rel_Some1)
  from adfs_top [OF a1] have
    top: "fst a1 = set (snd (snd a1))" "distinct (snd (snd a1))" "kos ?E (snd (snd a1)) {}"
      "set nodes \<subseteq> fst a1" "\<forall>x\<in>fst a1. \<exists>w\<in>set nodes. (w, x) \<in> (edges ?E)\<^sup>*"
    by (auto simp: kos_def)
  have "fst a1 \<subseteq> set nodes"
  proof
    fix x assume "x \<in> fst a1"
    with top(5) obtain w where "w \<in> set nodes" "(w, x) \<in> (edges ?E)\<^sup>*" by blast
    then show "x \<in> set nodes"
      using forward_succs_nodes by (intro closed_reach [of w x ?E "set nodes"]) auto
  qed
  with top rel show ?thesis by auto
qed

lemma forward_total:
  assumes "length nodes \<le> n"
  shows "forward_pass n st nodes nodes (reset_used nodes [], []) \<noteq> None"
proof -
  let ?E = "forward_succs st nodes"
  have u: "used_set (fst (reset_used nodes [], [])) = fst ({}, [], [])"
    by (simp add: used_set_reset) (simp add: used_set_def map_get_def)
  have "card (set nodes - fst ({}, [], [])) \<le> n"
    using assms card_length [of nodes] by simp
  with adfs_fuel(2) [of "set nodes" ?E nodes "({}, [], [])" n] forward_succs_nodes
  have "adfs_succs n ?E nodes ({}, [], []) \<noteq> None" by auto
  with forward_pass_adfs [OF u, of n st nodes nodes] show ?thesis
    by (auto simp: option_rel_Some2)
qed

section \<open>stronglyConnectedComponents: the second loop\<close>

lemma components_fold_get:
  "map_get (fold (\<lambda>x cs. map_set x idx cs) xs comps) y =
     (if y \<in> set xs then Some idx else map_get comps y)"
  by (induction xs arbitrary: comps) (auto simp: map_get_def map_set_def update_conv')

lemma jsmap_keys: "fst ` set m = {y. map_get m y \<noteq> None}"
  by (auto simp: map_get_def map_of_eq_None_iff)

lemma components_fold_keys:
  "fst ` set (fold (\<lambda>x cs. map_set x idx cs) xs comps) = fst ` set comps \<union> set xs"
  by (auto simp: jsmap_keys components_fold_get)

lemma components_fold_distinct:
  "distinct (map fst comps) \<Longrightarrow> distinct (map fst (fold (\<lambda>x cs. map_set x idx cs) xs comps))"
  by (induction xs arbitrary: comps) (auto simp: map_set_def distinct_update)

lemma after_nth:
  "distinct xs \<Longrightarrow> i < length xs \<Longrightarrow> after xs (xs ! i) = set (drop i xs)"
proof (induction xs arbitrary: i)
  case Nil
  then show ?case by simp
next
  case (Cons x xs)
  show ?case
  proof (cases i)
    case 0
    then show ?thesis by (simp add: after_def)
  next
    case (Suc j)
    with Cons.prems have "x \<noteq> xs ! j" by auto
    with Suc Cons show ?thesis by (simp add: after_def)
  qed
qed

lemma backward_reach_subject:
  "(v, x) \<in> (edges (backward_succs st))\<^sup>* \<Longrightarrow> x = v \<or> x \<in> subject_ids st"
proof (induction rule: rtrancl_induct)
  case base
  show ?case by simp
next
  case (step a b)
  from step.hyps(2) backward_succs_subjects [of st a] show ?case
    by (auto simp: edges_def)
qed

lemma backward_call:
  assumes run: "backwardDfs n st node (used, []) = Some (used', component)"
    and node: "node \<notin> used_set used"
  shows "used_set used' = used_set used \<union> set component \<and> node \<in> set component
         \<and> set component \<inter> used_set used = {}
         \<and> set component \<subseteq> insert node (subject_ids st)"
proof -
  from backwardDfs_adfs(1) [of "(used, [])" "(used_set used, [], [])" n st node] run
  obtain a1 where a1: "adfs n (backward_succs st) node (used_set used, [], []) = Some a1"
    and rel: "used_set used' = fst a1" "component = fst (snd a1)"
    by (auto simp: option_rel_Some1)
  from adfs_spec(1) [OF a1] node obtain L where
    L: "dfs_post (backward_succs st) (used_set used, [], []) a1 L" "node \<in> set L"
      "\<forall>x\<in>set L. (node, x) \<in> (edges (backward_succs st))\<^sup>*"
    by auto
  from L(1) rel have c: "set component = set L" and u: "fst a1 = used_set used \<union> set L"
    and d: "set L \<inter> used_set used = {}"
    by (auto simp: dfs_post_def seg_ok_def)
  have "set L \<subseteq> insert node (subject_ids st)"
  proof
    fix x assume "x \<in> set L"
    with L(3) have "(node, x) \<in> (edges (backward_succs st))\<^sup>*" by simp
    from backward_reach_subject [OF this] show "x \<in> insert node (subject_ids st)" by simp
  qed
  with c u d L(2) rel(1) show ?thesis by simp
qed

lemma backward_call_scc:
  assumes wf: "literals_apart st" and nodes: "set nodes = subject_ids st"
    and ord: "set order = set nodes" and k: "kos (forward_succs st nodes) order {}"
    and closed: "\<forall>x\<in>used_set used. \<forall>y. (x, y) \<in> (edges (forward_succs st nodes))\<^sup>*
                   \<and> (y, x) \<in> (edges (forward_succs st nodes))\<^sup>* \<longrightarrow> y \<in> used_set used"
    and node: "node \<in> set nodes" "node \<notin> used_set used"
    and last: "after order node \<subseteq> insert node (used_set used)"
    and run: "backwardDfs n st node (used, []) = Some (used', component)"
  shows "set component = {y. (node, y) \<in> (edges (forward_succs st nodes))\<^sup>*
                            \<and> (y, node) \<in> (edges (forward_succs st nodes))\<^sup>*}"
proof -
  from backwardDfs_adfs(1) [of "(used, [])" "(used_set used, [], [])" n st node] run
  obtain a1 where a1: "adfs n (backward_succs st) node (used_set used, [], []) = Some a1"
    and rel: "used_set used' = fst a1" "component = fst (snd a1)"
    by (auto simp: option_rel_Some1)
  have rev: "\<forall>x\<in>set nodes. \<forall>y. y \<in> set (backward_succs st x) \<longleftrightarrow> x \<in> set (forward_succs st nodes y)"
    using backward_forward [OF wf nodes] by blast
  have EV: "\<forall>x y. y \<in> set (forward_succs st nodes x) \<longrightarrow> x \<in> set nodes \<and> y \<in> set nodes"
    using forward_succs_nodes forward_succs_source nodes by blast
  from backward_scc [OF rev EV k ord closed node last a1] rel show ?thesis by auto
qed

lemma pass_inv_skip:
  assumes inv: "pass_inv st order k (used, comps, idx)" and k: "k < length order"
    and used: "order ! (length order - 1 - k) \<in> used_set used"
  shows "pass_inv st order (Suc k) (used, comps, idx)"
proof -
  from k have "drop (length order - Suc k) order
      = order ! (length order - 1 - k) # drop (length order - k) order"
    using Cons_nth_drop_Suc [of "length order - Suc k" order] by (simp add: Suc_diff_Suc)
  with inv used show ?thesis by (auto simp: pass_inv_def)
qed

lemma pass_inv_call:
  assumes inv: "pass_inv st order k (used, comps, idx)" and k: "k < length order"
    and ord: "set order = subject_ids st"
    and unused: "order ! (length order - 1 - k) \<notin> used_set used"
    and run: "backwardDfs n st (order ! (length order - 1 - k)) (used, []) = Some (used', component)"
  shows "pass_inv st order (Suc k)
           (used', fold (\<lambda>x cs. map_set x idx cs) component comps, idx + 1)"
proof -
  let ?node = "order ! (length order - 1 - k)"
  from k have d: "drop (length order - Suc k) order = ?node # drop (length order - k) order"
    using Cons_nth_drop_Suc [of "length order - Suc k" order] by (simp add: Suc_diff_Suc)
  from k have "length order - 1 - k < length order" by simp
  then have "?node \<in> set order" by (rule nth_mem)
  with ord have "?node \<in> subject_ids st" by simp
  with backward_call [OF run unused] inv d show ?thesis
    by (auto simp: pass_inv_def components_fold_keys components_fold_distinct)
qed

lemma scc_inv_call:
  assumes wf: "literals_apart st" and nodes: "set nodes = subject_ids st"
    and ord: "set order = set nodes" and dist: "distinct order"
    and kos: "kos (forward_succs st nodes) order {}"
    and inv: "pass_inv st order k (used, comps, idx)"
    and sinv: "scc_inv (forward_succs st nodes) (used, comps, idx)"
    and k: "k < length order"
    and unused: "order ! (length order - 1 - k) \<notin> used_set used"
    and run: "backwardDfs n st (order ! (length order - 1 - k)) (used, []) = Some (used', component)"
  shows "scc_inv (forward_succs st nodes)
           (used', fold (\<lambda>x cs. map_set x idx cs) component comps, idx + 1)"
proof -
  let ?node = "order ! (length order - 1 - k)"
  let ?R = "(edges (forward_succs st nodes))\<^sup>*"
  let ?comps = "fold (\<lambda>x cs. map_set x idx cs) component comps"
  from k have i: "length order - 1 - k < length order" by simp
  then have node: "?node \<in> set nodes" using ord nth_mem by blast
  from k have "drop (length order - 1 - k) order = ?node # drop (length order - k) order"
    using Cons_nth_drop_Suc [of "length order - Suc k" order] by (simp add: Suc_diff_Suc)
  with inv after_nth [OF dist i] have last: "after order ?node \<subseteq> insert ?node (used_set used)"
    by (auto simp: pass_inv_def)
  from sinv have closed: "\<forall>x\<in>used_set used. \<forall>y. (x, y) \<in> ?R \<and> (y, x) \<in> ?R \<longrightarrow> y \<in> used_set used"
    and below: "\<forall>x\<in>used_set used. \<exists>c<idx. map_get comps x = Some c"
    and same: "\<forall>x\<in>used_set used. \<forall>y\<in>used_set used.
                 map_get comps x = map_get comps y \<longleftrightarrow> (x, y) \<in> ?R \<and> (y, x) \<in> ?R"
    by (simp_all add: scc_inv_def)
  from backward_call_scc [OF wf nodes ord kos closed node unused last run]
  have C: "set component = {y. (?node, y) \<in> ?R \<and> (y, ?node) \<in> ?R}" .
  from backward_call [OF run unused] have U': "used_set used' = used_set used \<union> set component"
    and disj: "set component \<inter> used_set used = {}"
    by auto
  have get: "map_get ?comps y = (if y \<in> set component then Some idx else map_get comps y)" for y
    by (rule components_fold_get)
  have apart: "\<not> ((x, y) \<in> ?R \<and> (y, x) \<in> ?R)" if "x \<in> set component" "y \<in> used_set used" for x y
  proof
    assume "(x, y) \<in> ?R \<and> (y, x) \<in> ?R"
    with closed that(2) have "x \<in> used_set used" by blast
    with that(1) disj show False by auto
  qed
  have a: "\<forall>x\<in>used_set used'. \<forall>y. (x, y) \<in> ?R \<and> (y, x) \<in> ?R \<longrightarrow> y \<in> used_set used'"
  proof (intro ballI allI impI)
    fix x y assume x: "x \<in> used_set used'" and xy: "(x, y) \<in> ?R \<and> (y, x) \<in> ?R"
    show "y \<in> used_set used'"
    proof (cases "x \<in> set component")
      case True
      with C xy have "(?node, y) \<in> ?R \<and> (y, ?node) \<in> ?R"
        by (auto intro: rtrancl_trans)
      with C U' show ?thesis by simp
    next
      case False
      with x U' have "x \<in> used_set used" by simp
      with closed xy U' show ?thesis by blast
    qed
  qed
  have b: "\<forall>x\<in>used_set used'. \<exists>c<idx + 1. map_get ?comps x = Some c"
  proof
    fix x assume "x \<in> used_set used'"
    with U' below show "\<exists>c<idx + 1. map_get ?comps x = Some c"
      by (cases "x \<in> set component") (auto simp: get intro: less_SucI)
  qed
  have c: "\<forall>x\<in>used_set used'. \<forall>y\<in>used_set used'.
             map_get ?comps x = map_get ?comps y \<longleftrightarrow> (x, y) \<in> ?R \<and> (y, x) \<in> ?R"
  proof (intro ballI)
    fix x y assume x: "x \<in> used_set used'" and y: "y \<in> used_set used'"
    show "map_get ?comps x = map_get ?comps y \<longleftrightarrow> (x, y) \<in> ?R \<and> (y, x) \<in> ?R"
    proof (cases "x \<in> set component")
      case xC: True
      show ?thesis
      proof (cases "y \<in> set component")
        case True
        with xC C have "(x, y) \<in> ?R \<and> (y, x) \<in> ?R" by (auto intro: rtrancl_trans)
        with xC True show ?thesis by (simp add: get)
      next
        case False
        with y U' have yU: "y \<in> used_set used" by simp
        with below obtain c where "c < idx" "map_get comps y = Some c" by blast
        with xC False apart [OF xC yU] show ?thesis by (simp add: get)
      qed
    next
      case xC: False
      with x U' have xU: "x \<in> used_set used" by simp
      show ?thesis
      proof (cases "y \<in> set component")
        case True
        from xU below obtain c where "c < idx" "map_get comps x = Some c" by blast
        with xC True apart [OF True xU] show ?thesis by (auto simp: get)
      next
        case False
        with y U' have "y \<in> used_set used" by simp
        with xU same xC False show ?thesis by (simp add: get)
      qed
    qed
  qed
  from a b c show ?thesis by (simp add: scc_inv_def)
qed

lemma backward_pass_inv:
  assumes len: "length order = length nodes" and ord: "set order = subject_ids st"
  shows "k \<le> length nodes \<Longrightarrow> pass_inv st order k s \<Longrightarrow>
         backward_pass n st nodes order [k..<length nodes] s = Some s' \<Longrightarrow>
         pass_inv st order (length nodes) s'
         \<and> (literals_apart st \<and> set nodes = subject_ids st \<and> distinct order
              \<and> kos (forward_succs st nodes) order {} \<and> scc_inv (forward_succs st nodes) s
            \<longrightarrow> scc_inv (forward_succs st nodes) s')"
proof (induction "length nodes - k" arbitrary: k s)
  case 0
  then show ?case by simp
next
  case (Suc m)
  obtain used comps idx where s: "s = (used, comps, idx)" by (cases s)
  from Suc.hyps(2) have k: "k < length nodes" and m: "m = length nodes - Suc k" by simp_all
  from k have upt: "[k..<length nodes] = k # [Suc k..<length nodes]" by (rule upt_conv_Cons)
  let ?node = "order ! (length nodes - 1 - k)"
  from k len have inr: "length nodes - 1 - k < length order" by simp
  show ?case
  proof (cases "map_get used ?node \<noteq> Some True")
    case False
    with Suc.prems(3) inr have r: "backward_pass n st nodes order [Suc k..<length nodes] s = Some s'"
      unfolding upt s by simp
    from False have "?node \<in> used_set used" by (simp add: used_set_def)
    with pass_inv_skip [of st order k used comps idx] Suc.prems(2) k len
    have "pass_inv st order (Suc k) s" by (simp add: s)
    from Suc.hyps(1) [OF m _ this r] k show ?thesis by simp
  next
    case True
    with Suc.prems(3) inr obtain used' component where
      run: "backwardDfs n st ?node (used, []) = Some (used', component)"
      and r: "backward_pass n st nodes order [Suc k..<length nodes]
                (used', fold (\<lambda>x cs. map_set x idx cs) component comps, idx + 1) = Some s'"
      unfolding upt s by (auto split: option.splits)
    from True have unused: "?node \<notin> used_set used" by (simp add: used_set_def)
    from k len have k': "k < length order" by simp
    from pass_inv_call [of st order k used comps idx n used' component] Suc.prems(2) k' ord
      unused run len
    have p: "pass_inv st order (Suc k)
               (used', fold (\<lambda>x cs. map_set x idx cs) component comps, idx + 1)"
      by (simp add: s)
    from Suc.hyps(1) [OF m _ p r] k have
      IH: "pass_inv st order (length nodes) s'"
        "literals_apart st \<and> set nodes = subject_ids st \<and> distinct order
           \<and> kos (forward_succs st nodes) order {}
           \<and> scc_inv (forward_succs st nodes)
               (used', fold (\<lambda>x cs. map_set x idx cs) component comps, idx + 1)
         \<longrightarrow> scc_inv (forward_succs st nodes) s'"
      by simp_all
    have "scc_inv (forward_succs st nodes) s'"
      if a: "literals_apart st" "set nodes = subject_ids st" "distinct order"
        "kos (forward_succs st nodes) order {}" "scc_inv (forward_succs st nodes) s"
    proof -
      from a(2) ord have o: "set order = set nodes" by simp
      from scc_inv_call [of st nodes order k used comps idx n used' component]
        a o Suc.prems(2) k' unused run len
      have "scc_inv (forward_succs st nodes)
              (used', fold (\<lambda>x cs. map_set x idx cs) component comps, idx + 1)"
        by (simp add: s)
      with IH(2) a show ?thesis by simp
    qed
    with IH(1) show ?thesis by blast
  qed
qed

lemma backward_pass_total:
  assumes len: "length order = length nodes" and ord: "set order = subject_ids st"
    and nodes: "set nodes = subject_ids st" and fuel: "length nodes \<le> n"
  shows "k \<le> length nodes \<Longrightarrow> pass_inv st order k s \<Longrightarrow>
         backward_pass n st nodes order [k..<length nodes] s \<noteq> None"
proof (induction "length nodes - k" arbitrary: k s)
  case 0
  then show ?case by simp
next
  case (Suc m)
  obtain used comps idx where s: "s = (used, comps, idx)" by (cases s)
  from Suc.hyps(2) have k: "k < length nodes" and m: "m = length nodes - Suc k" by simp_all
  from k have upt: "[k..<length nodes] = k # [Suc k..<length nodes]" by (rule upt_conv_Cons)
  let ?node = "order ! (length nodes - 1 - k)"
  from k len have inr: "length nodes - 1 - k < length order" by simp
  from k len have k': "k < length order" by simp
  show ?case
  proof (cases "map_get used ?node \<noteq> Some True")
    case False
    then have "?node \<in> used_set used" by (simp add: used_set_def)
    with pass_inv_skip [of st order k used comps idx] Suc.prems(2) k len
    have "pass_inv st order (Suc k) s" by (simp add: s)
    from Suc.hyps(1) [OF m _ this] k False inr show ?thesis
      unfolding upt s by simp
  next
    case True
    then have unused: "?node \<notin> used_set used" by (simp add: used_set_def)
    from inr ord have nodeV: "?node \<in> subject_ids st" using nth_mem by blast
    have fin: "finite (subject_ids st)" by (simp add: subject_ids_def)
    have "card (subject_ids st) \<le> n"
      using card_length [of nodes] nodes fuel by simp
    then have "card (subject_ids st - used_set used) \<le> n"
      using card_mono [OF fin, of "subject_ids st - used_set used"] by auto
    with adfs_fuel(1) [OF fin, of "backward_succs st" ?node "(used_set used, [], [])" n]
      backward_succs_subjects nodeV unused
    have "adfs n (backward_succs st) ?node (used_set used, [], []) \<noteq> None" by auto
    with backwardDfs_adfs(1) [of "(used, [])" "(used_set used, [], [])" n st ?node]
    obtain used' component where
      run: "backwardDfs n st ?node (used, []) = Some (used', component)"
      by (cases "backwardDfs n st ?node (used, [])") auto
    from pass_inv_call [of st order k used comps idx n used' component] Suc.prems(2) k' ord
      unused run len
    have p: "pass_inv st order (Suc k)
               (used', fold (\<lambda>x cs. map_set x idx cs) component comps, idx + 1)"
      by (simp add: s)
    from Suc.hyps(1) [OF m _ p] k True inr run show ?thesis
      unfolding upt s by simp
  qed
qed

section \<open>stronglyConnectedComponents: the result\<close>

lemma components_result:
  assumes run: "stronglyConnectedComponents n st = Some comps"
  shows "fst ` set comps = subject_ids st \<and> distinct (map fst comps)
         \<and> (literals_apart st \<longrightarrow>
              (\<forall>x\<in>subject_ids st. \<forall>y\<in>subject_ids st.
                 map_get comps x = map_get comps y
                 \<longleftrightarrow> (x, y) \<in> (store_edges st)\<^sup>* \<and> (y, x) \<in> (store_edges st)\<^sup>*))"
proof -
  define nodes where "nodes = set_spread [] (map tid (getSubjects st))"
  have nodes: "set nodes = subject_ids st" and dn: "distinct nodes"
    by (simp_all add: nodes_def nodes_subject_ids set_spread_distinct)
  from run obtain used1 order where
    f: "forward_pass n st nodes nodes (reset_used nodes [], []) = Some (used1, order)"
    by (auto simp: stronglyConnectedComponents_def nodes_def [symmetric] Let_def
             split: option.splits)
  with run obtain used' idx where
    b: "backward_pass n st nodes order [0..<length nodes] (reset_used nodes used1, [], 0)
          = Some (used', comps, idx)"
    by (auto simp: stronglyConnectedComponents_def nodes_def [symmetric] Let_def
             split: option.splits)
  from forward_phase [OF f] have ord: "set order = set nodes" and dist: "distinct order"
    and u1: "used_set used1 = set order" and kos: "kos (forward_succs st nodes) order {}"
    by auto
  from ord dist dn have len: "length order = length nodes"
    by (metis distinct_card)
  let ?s0 = "(reset_used nodes used1, [], 0 :: nat)"
  have p0: "pass_inv st order 0 ?s0"
    using u1 ord by (simp add: pass_inv_def used_set_reset)
  have s0: "scc_inv (forward_succs st nodes) ?s0"
    using u1 ord by (simp add: scc_inv_def used_set_reset)
  from backward_pass_inv [OF len, of st 0 ?s0 n "(used', comps, idx)"] ord nodes p0 b
  have p: "pass_inv st order (length nodes) (used', comps, idx)"
    and s: "literals_apart st \<and> set nodes = subject_ids st \<and> distinct order
              \<and> kos (forward_succs st nodes) order {} \<and> scc_inv (forward_succs st nodes) ?s0
            \<longrightarrow> scc_inv (forward_succs st nodes) (used', comps, idx)"
    by simp_all
  from p len ord nodes have keys: "used_set used' = fst ` set comps"
    and all: "used_set used' = subject_ids st" and dk: "distinct (map fst comps)"
    by (auto simp: pass_inv_def)
  have "\<forall>x\<in>subject_ids st. \<forall>y\<in>subject_ids st.
          map_get comps x = map_get comps y
          \<longleftrightarrow> (x, y) \<in> (store_edges st)\<^sup>* \<and> (y, x) \<in> (store_edges st)\<^sup>*"
    if wf: "literals_apart st"
  proof (intro ballI)
    fix x y assume x: "x \<in> subject_ids st" and y: "y \<in> subject_ids st"
    from s wf nodes dist kos s0 have "scc_inv (forward_succs st nodes) (used', comps, idx)"
      by simp
    with x y all have "map_get comps x = map_get comps y
        \<longleftrightarrow> (x, y) \<in> (edges (forward_succs st nodes))\<^sup>* \<and> (y, x) \<in> (edges (forward_succs st nodes))\<^sup>*"
      by (simp add: scc_inv_def)
    with forward_edges_store [OF nodes, of y x] forward_edges_store [OF nodes, of x y] x y nodes
    show "map_get comps x = map_get comps y
        \<longleftrightarrow> (x, y) \<in> (store_edges st)\<^sup>* \<and> (y, x) \<in> (store_edges st)\<^sup>*"
      by simp
  qed
  with keys all dk show ?thesis by simp
qed

lemma components_total:
  assumes "length st \<le> n"
  shows "stronglyConnectedComponents n st \<noteq> None"
proof -
  define nodes where "nodes = set_spread [] (map tid (getSubjects st))"
  have nodes: "set nodes = subject_ids st" and dn: "distinct nodes"
    by (simp_all add: nodes_def nodes_subject_ids set_spread_distinct)
  from assms nodes_length [of st] have fuel: "length nodes \<le> n" by (simp add: nodes_def)
  from forward_total [OF fuel, of st] obtain used1 order where
    f: "forward_pass n st nodes nodes (reset_used nodes [], []) = Some (used1, order)"
    by auto
  from forward_phase [OF f] have ord: "set order = set nodes" and dist: "distinct order"
    and u1: "used_set used1 = set order"
    by auto
  from ord dist dn have len: "length order = length nodes"
    by (metis distinct_card)
  have p0: "pass_inv st order 0 (reset_used nodes used1, [], 0)"
    using u1 ord by (simp add: pass_inv_def used_set_reset)
  from ord nodes have "set order = subject_ids st" by simp
  from backward_pass_total [OF len this nodes fuel _ p0]
  have "backward_pass n st nodes order [0..<length nodes] (reset_used nodes used1, [], 0) \<noteq> None"
    by simp
  with f show ?thesis
    by (auto simp: stronglyConnectedComponents_def nodes_def [symmetric] Let_def
             split: option.splits)
qed

text \<open>
  C3, as amended. \<open>stronglyConnectedComponents\<close> returns for every store (a bound of
  the number of quads is enough for the recursion), and the keys of its map are the ids
  of the subjects, each once: an id that is only the object of quads is no key.
\<close>

theorem components_label_subjects:
  "(\<exists>comps. stronglyConnectedComponents (length st) st = Some comps)
   \<and> (stronglyConnectedComponents n st = Some comps \<longrightarrow>
        fst ` set comps = subject_ids st \<and> distinct (map fst comps)
        \<and> (\<forall>x. map_get comps x \<noteq> None \<longleftrightarrow> x \<in> subject_ids st))"
  using components_total [of st "length st"] components_result [of n st comps]
  by (auto simp: jsmap_keys)

text \<open>The store of the two quads from \<open>A\<close> to \<open>B\<close> and from \<open>B\<close> to \<open>C\<close>.\<close>

theorem components_label_subjects_witness:
  "fst ` set [(''A'', 0 :: nat), (''B'', 1)]
     = subject_ids [triple_of ''A'' ''p'' ''B'', triple_of ''B'' ''p'' ''C'']
   \<and> distinct (map fst [(''A'', 0 :: nat), (''B'', 1)])
   \<and> (\<forall>x. map_get [(''A'', 0 :: nat), (''B'', 1)] x \<noteq> None
          \<longleftrightarrow> x \<in> subject_ids [triple_of ''A'' ''p'' ''B'', triple_of ''B'' ''p'' ''C''])"
proof -
  have "stronglyConnectedComponents 2 [triple_of ''A'' ''p'' ''B'', triple_of ''B'' ''p'' ''C'']
          = Some [(''A'', 0), (''B'', 1)]"
    by code_simp
  with components_label_subjects
    [of "[triple_of ''A'' ''p'' ''B'', triple_of ''B'' ''p'' ''C'']" 2 "[(''A'', 0), (''B'', 1)]"]
  show ?thesis by blast
qed

text \<open>
  Against C3 as stated: \<open>C\<close> is the object of a quad, no literal, and gets no
  number.
\<close>

theorem object_only_unlabelled_counterexample:
  "stronglyConnectedComponents 2 [triple_of ''A'' ''p'' ''B'', triple_of ''B'' ''p'' ''C'']
     = Some [(''A'', 0), (''B'', 1)]
   \<and> termType (object (triple_of ''B'' ''p'' ''C'')) \<noteq> Literal
   \<and> tid (object (triple_of ''B'' ''p'' ''C'')) = ''C''
   \<and> map_get [(''A'', 0 :: nat), (''B'', 1)] ''C'' = None"
  by code_simp

lemma store_edges_source: "(x, y) \<in> (store_edges st)\<^sup>+ \<Longrightarrow> x \<in> subject_ids st"
  by (auto dest!: tranclD simp: store_edges_def subject_ids_def)

text \<open>
  C4. For a store in which no literal has the id of a subject:
  \<open>stronglyConnectedComponents\<close> returns; the ids it gives numbers are the ids of
  the subjects, all of them; two such ids have the same number exactly when each
  reaches the other along the edges of the store (from a subject to its object,
  literals left out); so two ids on a common cycle of edges both have a number, the
  same; and when the edges have no cycle, no two ids share a number.
\<close>

theorem components_mutual_reachability:
  assumes "literals_apart st"
  shows "(\<exists>comps. stronglyConnectedComponents (length st) st = Some comps)
     \<and> (stronglyConnectedComponents n st = Some comps \<longrightarrow>
          (\<forall>x. x \<in> subject_ids st \<longleftrightarrow> (\<exists>i. map_get comps x = Some i))
          \<and> (\<forall>x y i j. map_get comps x = Some i \<and> map_get comps y = Some j \<longrightarrow>
               (i = j \<longleftrightarrow> (x, y) \<in> (store_edges st)\<^sup>* \<and> (y, x) \<in> (store_edges st)\<^sup>*))
          \<and> (\<forall>x y. (x, y) \<in> (store_edges st)\<^sup>+ \<and> (y, x) \<in> (store_edges st)\<^sup>+ \<longrightarrow>
               (\<exists>i. map_get comps x = Some i \<and> map_get comps y = Some i))
          \<and> (acyclic (store_edges st) \<longrightarrow>
               (\<forall>x y i. map_get comps x = Some i \<and> map_get comps y = Some i \<longrightarrow> x = y)))"
proof (intro conjI impI)
  show "\<exists>comps. stronglyConnectedComponents (length st) st = Some comps"
    using components_total [of st "length st"] by auto
next
  assume run: "stronglyConnectedComponents n st = Some comps"
  from components_result [OF run] assms have keys: "fst ` set comps = subject_ids st"
    and same: "\<forall>x\<in>subject_ids st. \<forall>y\<in>subject_ids st.
                 map_get comps x = map_get comps y
                 \<longleftrightarrow> (x, y) \<in> (store_edges st)\<^sup>* \<and> (y, x) \<in> (store_edges st)\<^sup>*"
    by auto
  show labelled: "\<forall>x. x \<in> subject_ids st \<longleftrightarrow> (\<exists>i. map_get comps x = Some i)"
    using keys by (auto simp: jsmap_keys)
  show iff: "\<forall>x y i j. map_get comps x = Some i \<and> map_get comps y = Some j \<longrightarrow>
             (i = j \<longleftrightarrow> (x, y) \<in> (store_edges st)\<^sup>* \<and> (y, x) \<in> (store_edges st)\<^sup>*)"
  proof (intro allI impI)
    fix x y i j assume a: "map_get comps x = Some i \<and> map_get comps y = Some j"
    with labelled have "x \<in> subject_ids st" "y \<in> subject_ids st" by blast+
    with same have "map_get comps x = map_get comps y
        \<longleftrightarrow> (x, y) \<in> (store_edges st)\<^sup>* \<and> (y, x) \<in> (store_edges st)\<^sup>*"
      by blast
    with a show "i = j \<longleftrightarrow> (x, y) \<in> (store_edges st)\<^sup>* \<and> (y, x) \<in> (store_edges st)\<^sup>*"
      by simp
  qed
  show "\<forall>x y. (x, y) \<in> (store_edges st)\<^sup>+ \<and> (y, x) \<in> (store_edges st)\<^sup>+ \<longrightarrow>
               (\<exists>i. map_get comps x = Some i \<and> map_get comps y = Some i)"
  proof (intro allI impI)
    fix x y assume c: "(x, y) \<in> (store_edges st)\<^sup>+ \<and> (y, x) \<in> (store_edges st)\<^sup>+"
    then have "x \<in> subject_ids st" "y \<in> subject_ids st"
      by (auto dest: store_edges_source)
    with labelled obtain i j where ij: "map_get comps x = Some i" "map_get comps y = Some j"
      by blast
    from c have "(x, y) \<in> (store_edges st)\<^sup>* \<and> (y, x) \<in> (store_edges st)\<^sup>*"
      by (auto intro: trancl_into_rtrancl)
    with iff ij have "i = j" by blast
    with ij show "\<exists>i. map_get comps x = Some i \<and> map_get comps y = Some i" by simp
  qed
  assume ac: "acyclic (store_edges st)"
  show "\<forall>x y i. map_get comps x = Some i \<and> map_get comps y = Some i \<longrightarrow> x = y"
  proof (intro allI impI, rule ccontr)
    fix x y i assume a: "map_get comps x = Some i \<and> map_get comps y = Some i" and ne: "x \<noteq> y"
    with iff have "(x, y) \<in> (store_edges st)\<^sup>*" "(y, x) \<in> (store_edges st)\<^sup>*" by blast+
    with ne have "(x, y) \<in> (store_edges st)\<^sup>+" by (auto simp: rtrancl_eq_or_trancl)
    with \<open>(y, x) \<in> (store_edges st)\<^sup>*\<close> have "(x, x) \<in> (store_edges st)\<^sup>+" by simp
    with ac show False by (simp add: acyclic_def)
  qed
qed

text \<open>
  The stores \<open>ex_cycle\<close>, where \<open>A\<close> and \<open>B\<close> get the same number, and
  \<open>ex_chain\<close>, where they get two.
\<close>

theorem components_mutual_reachability_witness:
  "stronglyConnectedComponents 2 ex_cycle = Some [(''A'', 0), (''B'', 0)]
   \<and> ''A'' \<in> subject_ids ex_cycle \<and> ''B'' \<in> subject_ids ex_cycle
   \<and> ((''A'', ''B'') \<in> (store_edges ex_cycle)\<^sup>* \<and> (''B'', ''A'') \<in> (store_edges ex_cycle)\<^sup>*)
   \<and> stronglyConnectedComponents 2 ex_chain = Some [(''A'', 0), (''B'', 1)]
   \<and> \<not> ((''A'', ''B'') \<in> (store_edges ex_chain)\<^sup>* \<and> (''B'', ''A'') \<in> (store_edges ex_chain)\<^sup>*)"
proof -
  have c: "literals_apart ex_cycle" and d: "literals_apart ex_chain"
    by (simp_all add: literals_apart_def ex_cycle_def ex_chain_def triple_of_def named_def)
  have rc: "stronglyConnectedComponents 2 ex_cycle = Some [(''A'', 0), (''B'', 0)]"
    by code_simp
  have rd: "stronglyConnectedComponents 2 ex_chain = Some [(''A'', 0), (''B'', 1)]"
    by code_simp
  have gc: "map_get [(''A'', 0 :: nat), (''B'', 0)] ''A'' = Some 0 \<and>
            map_get [(''A'', 0 :: nat), (''B'', 0)] ''B'' = Some 0"
    by (simp add: map_get_def)
  have gd: "map_get [(''A'', 0 :: nat), (''B'', 1)] ''A'' = Some 0 \<and>
            map_get [(''A'', 0 :: nat), (''B'', 1)] ''B'' = Some 1"
    by (simp add: map_get_def)
  note cyc = components_mutual_reachability [OF c, of 2 "[(''A'', 0), (''B'', 0)]"]
  from cyc rc gc
  have "(''A'', ''B'') \<in> (store_edges ex_cycle)\<^sup>* \<and> (''B'', ''A'') \<in> (store_edges ex_cycle)\<^sup>*"
    by blast
  moreover from cyc rc gc have "''A'' \<in> subject_ids ex_cycle" "''B'' \<in> subject_ids ex_cycle"
    by blast+
  moreover
  from components_mutual_reachability [OF d, of 2 "[(''A'', 0), (''B'', 1)]"] rd gd
  have "(0 :: nat) = 1 \<longleftrightarrow>
          (''A'', ''B'') \<in> (store_edges ex_chain)\<^sup>* \<and> (''B'', ''A'') \<in> (store_edges ex_chain)\<^sup>*"
    by blast
  ultimately show ?thesis using rc rd by simp
qed

section \<open>getShape and quadsToShapes return\<close>

lemma getQuads_subset: "set (getQuads st s p ob) \<subseteq> set st"
  by (auto simp: getQuads_def)

lemma getQuads_subject_nonempty:
  "getQuads st (Some i) None None \<noteq> [] \<Longrightarrow> i \<in> subject_ids st"
  by (auto simp: getQuads_def subject_ids_def filter_empty_conv)

lemma unparsed_mono: "set p \<subseteq> set p' \<Longrightarrow> unparsed st p' \<le> unparsed st p"
  unfolding unparsed_def by (intro card_mono) (auto simp: subject_ids_def)

lemma unparsed_push:
  assumes "i \<in> subject_ids st" and "Str i \<notin> set p"
  shows "unparsed st (p @ [Str i]) < unparsed st p"
  unfolding unparsed_def using assms
  by (intro psubset_card_mono) (auto simp: subject_ids_def)

lemma getShape_returns:
  "literals_apart st \<Longrightarrow> 1 \<le> n \<Longrightarrow>
   (getQuads st (Some (key_subject k)) None None \<noteq> [] \<longrightarrow>
      unparsed st (parsed @ [key_id k]) + 2 \<le> n) \<Longrightarrow>
   \<exists>r p'. getShape n k st shapes parsed = Some (r, p') \<and> set parsed \<subseteq> set p'"
  "literals_apart st \<Longrightarrow> set qs \<subseteq> set st \<Longrightarrow> unparsed st (snd s) + 1 \<le> n \<Longrightarrow>
   \<exists>s'. getShape_quads n qs st shapes s = Some s' \<and> set (snd s) \<subseteq> set (snd s')"
proof (induction n k st shapes parsed and n qs st shapes s
       rule: getShape_getShape_quads.induct)
  case (1 k st shapes parsed)
  then show ?case by simp
next
  case (2 n k st shapes parsed)
  let ?quads = "getQuads st (Some (key_subject k)) None None"
  show ?case
  proof (cases "?quads = []")
    case True
    then show ?thesis by auto
  next
    case False
    with "2.prems" have m: "unparsed st (parsed @ [key_id k]) + 1 \<le> n" by simp
    from False have ne: "\<not> length ?quads = 0" by simp
    from "2.IH" [OF ne "2.prems"(1) getQuads_subset] m
    obtain s' where "getShape_quads n ?quads st shapes (?quads, parsed @ [key_id k]) = Some s'"
      and "set (parsed @ [key_id k]) \<subseteq> set (snd s')"
      by auto
    with False show ?thesis by (cases s') auto
  qed
next
  case (3 n st shapes s)
  then show ?case by simp
next
  case (4 n q qs st shapes s)
  from "4.prems"(2) have q: "q \<in> set st" and qs: "set qs \<subseteq> set st" by auto
  show ?case
  proof (cases "termType (object q) \<noteq> Literal \<and> Str (tid (object q)) \<in> set (snd s)")
    case True
    with "4.IH"(1) [OF True "4.prems"(1) qs "4.prems"(3)] show ?thesis by simp
  next
    case False
    have sg: "shapes_get shapes (KeyTerm (object q)) = None" by simp
    have n1: "1 \<le> n" using "4.prems"(3) by simp
    have fuel: "getQuads st (Some (key_subject (KeyTerm (object q)))) None None \<noteq> [] \<longrightarrow>
                unparsed st (snd s @ [key_id (KeyTerm (object q))]) + 2 \<le> n"
    proof
      assume "getQuads st (Some (key_subject (KeyTerm (object q)))) None None \<noteq> []"
      then have subj: "tid (object q) \<in> subject_ids st"
        using getQuads_subject_nonempty by simp
      with "4.prems"(1) q have "termType (object q) \<noteq> Literal"
        by (auto simp: literals_apart_def)
      with False have "Str (tid (object q)) \<notin> set (snd s)" by simp
      from unparsed_push [OF subj this] "4.prems"(3)
      show "unparsed st (snd s @ [key_id (KeyTerm (object q))]) + 2 \<le> n" by simp
    qed
    from "4.IH"(2) [OF False sg "4.prems"(1) n1 fuel] obtain r p' where
      g: "getShape n (KeyTerm (object q)) st shapes (snd s) = Some (r, p')"
      and sub: "set (snd s) \<subseteq> set p'"
      by blast
    let ?s1 = "case r of None \<Rightarrow> (fst s, p')
                | Some nested \<Rightarrow>
                    if length (getQuads nested None None None) > 0
                    then (fst s @ getQuads nested None None None, p')
                    else (fst s, p')"
    have snd1: "snd ?s1 = p'" by (simp split: option.splits)
    from unparsed_mono [OF sub, of st] "4.prems"(3) have m1: "unparsed st (snd ?s1) + 1 \<le> n"
      unfolding snd1 by simp
    have e: "(case shapes_get shapes (KeyTerm (object q)) of
                None \<Rightarrow> getShape n (KeyTerm (object q)) st shapes (snd s)
              | Some nested \<Rightarrow> Some (Some nested, snd s)) = Some (r, p')"
      using g by simp
    from "4.IH"(3) [OF False e refl "4.prems"(1) qs m1]
    obtain s' where r: "getShape_quads n qs st shapes ?s1 = Some s'"
      and sb: "set (snd ?s1) \<subseteq> set (snd s')"
      by auto
    from False g r have "getShape_quads n (q # qs) st shapes s = Some s'" by auto
    moreover from sub sb [unfolded snd1] have "set (snd s) \<subseteq> set (snd s')" by simp
    ultimately show ?thesis by blast
  qed
qed

lemma card_subject_ids: "card (subject_ids st) \<le> length st"
  unfolding subject_ids_def
  by (rule le_trans [OF card_image_le]) (simp_all add: card_length)

lemma getShape_root_returns:
  assumes "literals_apart st" and "length st + 2 \<le> n"
  shows "\<exists>r p. getShape n k st shapes [] = Some (r, p)"
proof -
  have "unparsed st ([] @ [key_id k]) \<le> card (subject_ids st)"
    unfolding unparsed_def by (intro card_mono) (auto simp: subject_ids_def)
  with card_subject_ids [of st] assms(2) have "unparsed st ([] @ [key_id k]) + 2 \<le> n" by simp
  with getShape_returns(1) [OF assms(1), of n k "[]" shapes] assms(2) show ?thesis by auto
qed

lemma shapes_loop_returns:
  assumes "literals_apart st" and "length st + 2 \<le> n"
  shows "shapes_loop n st entries s \<noteq> None"
proof (induction entries arbitrary: s)
  case Nil
  show ?case by simp
next
  case (Cons entry entries)
  obtain node component where e: "entry = (node, component)" by (cases entry)
  from getShape_root_returns [OF assms, of "KeyString node" "snd s"] obtain r p where
    "getShape n (KeyString node) st (snd s) [] = Some (r, p)" by blast
  with Cons.IH show ?case by (simp add: e)
qed

lemma quadsToShapes_returns:
  assumes "literals_apart st" and "length st + 2 \<le> n"
  shows "quadsToShapes n st \<noteq> None"
proof -
  from assms(2) have "length st \<le> n" by simp
  from components_total [OF this] obtain comps where
    "stronglyConnectedComponents n st = Some comps" by auto
  with shapes_loop_returns [OF assms] show ?thesis by (simp add: quadsToShapes_def)
qed

text \<open>
  C8. For a store in which no literal has the id of a subject, with a bound of the
  number of quads plus two, \<open>quadsToShapes\<close> returns and so does \<open>getShape\<close> for
  every key, whatever the loops of the store. For \<open>A\<close> and \<open>B\<close> that refer to each
  other the one shape, rooted at \<open>A\<close>, is the store of the two quads, each once.
\<close>

theorem shapes_materialize:
  "(literals_apart st \<and> length st + 2 \<le> n \<longrightarrow>
      (\<exists>shapes. quadsToShapes n st = Some shapes)
      \<and> (\<exists>r parsed. getShape n k st shapes0 [] = Some (r, parsed)))
   \<and> quadsToShapes 4 ex_cycle = Some [(''A'', Some ex_cycle)]
   \<and> distinct ex_cycle"
proof (intro conjI impI)
  assume a: "literals_apart st \<and> length st + 2 \<le> n"
  with quadsToShapes_returns [of st n] show "\<exists>shapes. quadsToShapes n st = Some shapes"
    by auto
  from a getShape_root_returns [of st n k shapes0]
  show "\<exists>r parsed. getShape n k st shapes0 [] = Some (r, parsed)" by simp
next
  show "quadsToShapes 4 ex_cycle = Some [(''A'', Some ex_cycle)]" by code_simp
  show "distinct ex_cycle" by code_simp
qed

theorem shapes_materialize_witness:
  "(\<exists>shapes. quadsToShapes 4 ex_cycle = Some shapes)
   \<and> (\<exists>r parsed. getShape 4 (KeyString ''A'') ex_cycle [] [] = Some (r, parsed))"
proof -
  have "literals_apart ex_cycle \<and> length ex_cycle + 2 \<le> 4"
    by (simp add: literals_apart_def ex_cycle_def triple_of_def named_def)
  with shapes_materialize [of ex_cycle 4 "KeyString ''A''" "[]"] show ?thesis by blast
qed

section \<open>The report of validateSchemaOrg, item by item\<close>

lemma validate_items_report:
  assumes "\<forall>item\<in>set data. \<forall>st. stringToQuads e item url = Inr st
             \<longrightarrow> literals_apart st \<and> length st + 2 \<le> n"
    and "\<forall>item\<in>set data. \<forall>p\<in>set (item_entities n e item url). \<forall>err.
           entity_failures e p = Inl err \<longrightarrow> err = InvalidDataError"
  shows "validate_items n e data url report
           = Some (Inr (report @ concat (map (\<lambda>item. item_failures n e item url) data)))"
  using assms
proof (induction data arbitrary: report)
  case Nil
  show ?case by simp
next
  case (Cons item data)
  let ?ok = "\<lambda>p. \<not> isl (entity_failures e p)"
  have rest: "validate_items n e data url r
                = Some (Inr (r @ concat (map (\<lambda>item. item_failures n e item url) data)))" for r
    using Cons.IH Cons.prems by simp
  have caught: "\<forall>p\<in>set (item_entities n e item url). \<forall>err.
                  entity_failures e p = Inl err \<longrightarrow> err = InvalidDataError"
    using Cons.prems(2) by simp
  show ?case
  proof (cases "stringToQuads e item url")
    case (Inl err)
    then have "err = InvalidDataError" by (rule stringToQuads_error)
    with Inl have "try_item n e item url report = Some (Some InvalidDataError, report)"
      by (simp add: try_item_def)
    moreover from Inl have "item_failures n e item url = []"
      by (simp add: item_failures_def item_entities_def)
    ultimately show ?thesis by (simp add: rest)
  next
    case (Inr st)
    with Cons.prems(1) have "literals_apart st" "length st + 2 \<le> n" by simp_all
    from quadsToShapes_returns [OF this] obtain shapes where
      sh: "quadsToShapes n st = Some shapes" by auto
    with Inr have ents: "item_entities n e item url = shapes" by (simp add: item_entities_def)
    have t: "try_item n e item url report = Some (validate_shapes e shapes report)"
      using Inr sh by (simp add: try_item_def)
    have r: "validate_shapes e shapes report =
               ((case dropWhile ?ok shapes of
                   [] \<Rightarrow> None
                 | p # _ \<Rightarrow> Some (projl (entity_failures e p))),
                report @ item_failures n e item url)"
      using validate_shapes_result [of e shapes report] by (simp add: item_failures_def ents)
    show ?thesis
    proof (cases "dropWhile ?ok shapes")
      case Nil
      with t r show ?thesis by (simp add: rest)
    next
      case raised: (Cons p ps)
      then have "p \<in> set shapes" by (metis list.set_intros(1) set_dropWhileD)
      moreover from raised have "\<not> ?ok p" by (metis hd_dropWhile list.discI list.sel(1))
      then obtain err where err: "entity_failures e p = Inl err"
        by (cases "entity_failures e p") auto
      ultimately have "err = InvalidDataError" using caught ents by blast
      with err have "projl (entity_failures e p) = InvalidDataError" by simp
      with t r raised show ?thesis by (simp add: rest)
    qed
  qed
qed

text \<open>
  C2, as amended. \<open>uniqueBy\<close> throws a \<open>TypeError\<close> when an item other than the
  last has the value \<open>hasOwnProperty\<close> of \<open>val\<close>, the concatenation of its fields
  under the keys as strings; otherwise it keeps an item exactly when no item before it
  has the same value of \<open>val\<close> (or when that value is \<open>__proto__\<close>, which
  \<open>seen\<close> never holds). When the recursion bound is enough for every item's store and
  no entity's validation ends with an exception other than \<open>InvalidDataError\<close>, the
  report of \<open>validateSchemaOrg\<close> is, item after item in the order of \<open>data\<close>, and
  entity after entity in the order of the item's map of shapes up to the first entity
  that raises, the list \<open>uniqueBy\<close> makes, under the keys \<open>property\<close>, \<open>shape\<close>
  and \<open>severity\<close>, of what \<open>recursiveValidate\<close> returned for that entity:
  duplicates are dropped within an entity, not across entities or items.
\<close>

theorem report_deduplicated_per_entity:
  "uniqueBy items keys =
     (if ''hasOwnProperty'' \<in> (\<lambda>x. uniqueBy_val x keys) ` set (butlast items)
      then Inl TypeError
      else Inr (map (\<lambda>i. items ! i)
                  (filter (\<lambda>i. uniqueBy_val (items ! i) keys = ''__proto__''
                               \<or> uniqueBy_val (items ! i) keys
                                    \<notin> (\<lambda>x. uniqueBy_val x keys) ` set (take i items))
                     [0..<length items])))
   \<and> ((\<forall>item\<in>set data. \<forall>st. stringToQuads e item url = Inr st
           \<longrightarrow> literals_apart st \<and> length st + 2 \<le> n)
       \<and> (\<forall>item\<in>set data. \<forall>p\<in>set (item_entities n e item url). \<forall>err.
             entity_failures e p = Inl err \<longrightarrow> err = InvalidDataError)
       \<longrightarrow> validateSchemaOrg n e data url
             = Some (Inr (concat (map (\<lambda>item. item_failures n e item url) data))))"
proof (intro conjI impI)
  have "(items \<noteq> [] \<and> (''hasOwnProperty'' \<in> set ([] :: string list)
           \<or> ''hasOwnProperty'' \<in> (\<lambda>x. uniqueBy_val x keys) ` set (butlast items)))
        \<longleftrightarrow> ''hasOwnProperty'' \<in> (\<lambda>x. uniqueBy_val x keys) ` set (butlast items)"
    by (cases items) auto
  then show "uniqueBy items keys =
     (if ''hasOwnProperty'' \<in> (\<lambda>x. uniqueBy_val x keys) ` set (butlast items)
      then Inl TypeError
      else Inr (map (\<lambda>i. items ! i)
                  (filter (\<lambda>i. uniqueBy_val (items ! i) keys = ''__proto__''
                               \<or> uniqueBy_val (items ! i) keys
                                    \<notin> (\<lambda>x. uniqueBy_val x keys) ` set (take i items))
                     [0..<length items])))"
    using uniqueBy_kept_kept [of "[]" items keys] uniqueBy_filter_result [of "[]" items keys]
    by (simp add: uniqueBy_def)
next
  assume "(\<forall>item\<in>set data. \<forall>st. stringToQuads e item url = Inr st
           \<longrightarrow> literals_apart st \<and> length st + 2 \<le> n)
       \<and> (\<forall>item\<in>set data. \<forall>p\<in>set (item_entities n e item url). \<forall>err.
             entity_failures e p = Inl err \<longrightarrow> err = InvalidDataError)"
  then show "validateSchemaOrg n e data url
             = Some (Inr (concat (map (\<lambda>item. item_failures n e item url) data)))"
    using validate_items_report [of data e url n "[]"] by (simp add: validateSchemaOrg_def)
qed

text \<open>
  The documents \<open>two\<close> and \<open>tail\<close>: the report is the list of each of the two
  entities of \<open>two\<close>, which are alike, and then that of the first entity of
  \<open>tail\<close>.
\<close>

theorem report_deduplicated_per_entity_witness:
  "validateSchemaOrg 4 ex_env [''two'', ''tail''] ''http://example.org/''
     = Some (Inr (concat (map (\<lambda>item. item_failures 4 ex_env item ''http://example.org/'')
                            [''two'', ''tail''])))
   \<and> concat (map (\<lambda>item. item_failures 4 ex_env item ''http://example.org/'') [''two'', ''tail''])
     = [ex_failure ''Schema'' ''name'', ex_failure ''Google'' ''description'',
        ex_failure ''Schema'' ''name'', ex_failure ''Google'' ''description'',
        ex_failure ''Schema'' ''name'', ex_failure ''Google'' ''description'']"
proof -
  let ?url = "''http://example.org/''"
  let ?fs = "[ex_failure ''Schema'' ''name'', ex_failure ''Google'' ''description'']"
  have two: "stringToQuads ex_env ''two'' ?url = Inr (the (ex_parse ''two'' ?url))"
    and tail: "stringToQuads ex_env ''tail'' ?url = Inr (the (ex_parse ''tail'' ?url))"
    by code_simp+
  have "literals_apart (the (ex_parse ''two'' ?url))"
    and "literals_apart (the (ex_parse ''tail'' ?url))"
    and "length (the (ex_parse ''two'' ?url)) + 2 \<le> 4"
    and "length (the (ex_parse ''tail'' ?url)) + 2 \<le> 4"
    by code_simp+
  with two tail have fuel: "\<forall>item\<in>set [''two'', ''tail'']. \<forall>st.
      stringToQuads ex_env item ?url = Inr st \<longrightarrow> literals_apart st \<and> length st + 2 \<le> 4"
    by simp
  have e2: "map (entity_failures ex_env) (item_entities 4 ex_env ''two'' ?url) = [Inr ?fs, Inr ?fs]"
    by code_simp
  have et: "map (entity_failures ex_env) (item_entities 4 ex_env ''tail'' ?url)
              = [Inr ?fs, Inl InvalidDataError]"
    by code_simp
  have caught: "\<forall>item\<in>set [''two'', ''tail'']. \<forall>p\<in>set (item_entities 4 ex_env item ?url). \<forall>err.
      entity_failures ex_env p = Inl err \<longrightarrow> err = InvalidDataError"
  proof (intro ballI allI impI)
    fix item p err
    assume item: "item \<in> set [''two'', ''tail'']"
      and p: "p \<in> set (item_entities 4 ex_env item ?url)"
      and err: "entity_failures ex_env p = Inl err"
    from p have "entity_failures ex_env p
                   \<in> set (map (entity_failures ex_env) (item_entities 4 ex_env item ?url))"
      by simp
    with item e2 et have "entity_failures ex_env p \<in> {Inr ?fs, Inl InvalidDataError}"
      by auto
    with err show "err = InvalidDataError" by auto
  qed
  have "concat (map (\<lambda>item. item_failures 4 ex_env item ?url) [''two'', ''tail''])
          = ?fs @ ?fs @ ?fs"
    by code_simp
  with report_deduplicated_per_entity
         [of "[]" "[]" "[''two'', ''tail'']" ex_env ?url 4] fuel caught
  show ?thesis by simp
qed

text \<open>
  Against C2 as stated: the two entities of the document \<open>two\<close> fail alike, and the
  report holds the same failure, with the same property, shape and severity, twice.
\<close>

theorem report_duplicates_counterexample:
  "validateSchemaOrg 3 ex_env [''two''] ''http://example.org/''
     = Some (Inr [ex_failure ''Schema'' ''name'', ex_failure ''Google'' ''description'',
                  ex_failure ''Schema'' ''name'', ex_failure ''Google'' ''description''])
   \<and> \<not> distinct (map (\<lambda>f. (get_prop f ''property'', get_prop f ''shape'', get_prop f ''severity''))
         [ex_failure ''Schema'' ''name'', ex_failure ''Google'' ''description'',
          ex_failure ''Schema'' ''name'', ex_failure ''Google'' ''description''])"
  by code_simp

section \<open>validateSchemaOrg: what is caught and what is thrown on\<close>

text \<open>
  C9, as amended. Take an item that gives quads, and an entity of its map of shapes
  such that the validation of every entity before it in the map returns. If the
  entity's store has no quad for its RDF type, \<open>recursiveValidate\<close> fails with
  \<open>InvalidDataError\<close> at every node of the hierarchy, and the loop over \<open>data\<close>
  goes on with the next item: the report holds what the entities before that one
  added, and nothing of that entity nor of the entities behind it in the map, which are
  not validated (the \<open>try\<close> spans the item). If the entity's validation ends with
  another exception, that exception is the result. Both are said of the loop at any
  item, with the report so far, and of \<open>validateSchemaOrg\<close> for the first item of
  \<open>data\<close>.
\<close>

theorem untyped_entity_ends_item:
  assumes "stringToQuads e item url = Inr st0"
    and "quadsToShapes n st0 = Some (pre @ (ident, shp) # rest)"
    and "\<forall>p\<in>set pre. \<not> isl (entity_failures e p)"
  shows "(shp = Some st \<and> getQuads st (Some ident) (Some (rdf ''type'')) None = [] \<longrightarrow>
            recursiveValidate e h shp ident = Inl InvalidDataError
            \<and> validate_items n e (item # items) url report
                = validate_items n e items url
                    (report @ concat (map (\<lambda>p. projr (entity_failures e p)) pre))
            \<and> validateSchemaOrg n e (item # items) url
                = map_option
                    (map_sum id ((@) (concat (map (\<lambda>p. projr (entity_failures e p)) pre))))
                    (validateSchemaOrg n e items url))
       \<and> (entity_failures e (ident, shp) = Inl err \<and> err \<noteq> InvalidDataError \<longrightarrow>
            validate_items n e (item # items) url report = Some (Inl err)
            \<and> validateSchemaOrg n e (item # items) url = Some (Inl err))"
proof -
  let ?chunks = "concat (map (\<lambda>p. projr (entity_failures e p)) pre)"
  have raise: "validate_items n e (item # items) url r
                 = (if err' \<noteq> InvalidDataError then Some (Inl err')
                    else validate_items n e items url (r @ ?chunks))"
    if "entity_failures e (ident, shp) = Inl err'" for err' r
  proof -
    from assms(1,2) have "try_item n e item url r
        = Some (validate_shapes e (pre @ (ident, shp) # rest) r)"
      by (simp add: try_item_def)
    with validate_shapes_prefix [OF assms(3), of "(ident, shp) # rest" r]
    have "try_item n e item url r
            = Some (validate_shapes e ((ident, shp) # rest) (r @ ?chunks))"
      by simp
    with validate_shapes_raise [OF that, of rest "r @ ?chunks"] show ?thesis by simp
  qed
  show ?thesis
  proof (intro conjI impI)
    assume a: "shp = Some st \<and> getQuads st (Some ident) (Some (rdf ''type'')) None = []"
    then have u: "recursiveValidate e h' shp ident = Inl InvalidDataError" for h'
      using recursiveValidate_untyped [of st ident e h'] by simp
    from u show "recursiveValidate e h shp ident = Inl InvalidDataError" .
    from u [of "env_hierarchy e"]
    have "entity_failures e (ident, shp) = Inl InvalidDataError"
      by (simp add: entity_failures_def)
    note caught = raise [OF this]
    from caught [of report]
    show "validate_items n e (item # items) url report
            = validate_items n e items url (report @ ?chunks)"
      by simp
    from caught [of "[]"] validate_items_shift [of n e items url ?chunks]
    show "validateSchemaOrg n e (item # items) url
            = map_option (map_sum id ((@) ?chunks)) (validateSchemaOrg n e items url)"
      by (simp add: validateSchemaOrg_def)
  next
    assume b: "entity_failures e (ident, shp) = Inl err \<and> err \<noteq> InvalidDataError"
    with raise [of err report]
    show "validate_items n e (item # items) url report = Some (Inl err)" by simp
    from b raise [of err "[]"]
    show "validateSchemaOrg n e (item # items) url = Some (Inl err)"
      by (simp add: validateSchemaOrg_def)
  qed
qed

text \<open>
  The document \<open>tail\<close> holds an entity of type \<open>Thing\<close> and then one without
  type: the first adds its failures, and the next item, \<open>one\<close>, is validated. The
  document \<open>event\<close> makes the validator return a node of a type \<open>simplify\<close> does
  not know: that error is the result.
\<close>

theorem untyped_entity_ends_item_witness:
  "validateSchemaOrg 4 ex_env [''tail'', ''one''] ''http://example.org/''
     = Some (Inr [ex_failure ''Schema'' ''name'', ex_failure ''Google'' ''description'',
                  ex_failure ''Schema'' ''name'', ex_failure ''Google'' ''description''])
   \<and> validateSchemaOrg 4 ex_env [''event'', ''one''] ''http://example.org/''
     = Some (Inl (ShexValidationError ''Unknown failure type ExcessTripleViolation''))"
proof -
  let ?url = "''http://example.org/''"
  let ?a = "(''http://example.org/a'',
             Some [triple_of ''http://example.org/a'' (rdf ''type'') (schema ''Thing'')])"
  let ?stb = "[triple_of ''http://example.org/b'' (schema ''url'') ''http://example.org/c'']"
  let ?ste = "[triple_of ''http://example.org/a'' (rdf ''type'') (schema ''Event'')]"
  let ?fs = "[ex_failure ''Schema'' ''name'', ex_failure ''Google'' ''description'']"
  let ?unknown = "ShexValidationError ''Unknown failure type ExcessTripleViolation''"
  have parse: "stringToQuads ex_env ''tail'' ?url = Inr (the (ex_parse ''tail'' ?url))"
    by code_simp
  have shapes: "quadsToShapes 4 (the (ex_parse ''tail'' ?url))
                  = Some ([?a] @ (''http://example.org/b'', Some ?stb) # [])"
    by code_simp
  have a: "entity_failures ex_env ?a = Inr ?fs" by code_simp
  then have pre: "\<forall>p\<in>set [?a]. \<not> isl (entity_failures ex_env p)" by simp
  have untyped: "getQuads ?stb (Some ''http://example.org/b'') (Some (rdf ''type'')) None = []"
    by code_simp
  have one: "validateSchemaOrg 4 ex_env [''one''] ?url = Some (Inr ?fs)"
    by code_simp
  from untyped_entity_ends_item
         [where st = ?stb and items = "[''one'']" and report = "[]", OF parse shapes pre]
       untyped
  have "validateSchemaOrg 4 ex_env [''tail'', ''one''] ?url
          = map_option
              (map_sum id ((@) (concat (map (\<lambda>p. projr (entity_failures ex_env p)) [?a]))))
              (validateSchemaOrg 4 ex_env [''one''] ?url)"
    by blast
  then have first: "validateSchemaOrg 4 ex_env [''tail'', ''one''] ?url = Some (Inr (?fs @ ?fs))"
    by (simp add: one a)
  have parse': "stringToQuads ex_env ''event'' ?url = Inr (the (ex_parse ''event'' ?url))"
    by code_simp
  have shapes': "quadsToShapes 4 (the (ex_parse ''event'' ?url))
                  = Some ([] @ (''http://example.org/a'', Some ?ste) # [])"
    by code_simp
  have none: "\<forall>p\<in>set []. \<not> isl (entity_failures ex_env p)" by simp
  have ev: "entity_failures ex_env (''http://example.org/a'', Some ?ste) = Inl ?unknown"
    by code_simp
  have other: "?unknown \<noteq> InvalidDataError" by simp
  from untyped_entity_ends_item
         [where err = ?unknown and items = "[''one'']" and report = "[]",
          OF parse' shapes' none]
       ev other
  have "validateSchemaOrg 4 ex_env [''event'', ''one''] ?url = Some (Inl ?unknown)"
    by blast
  with first show ?thesis by simp
qed

text \<open>
  Against C9 as stated: in the document \<open>mixed\<close> the entity without type,
  \<open>b\<close>, is the first of the map of shapes. The entity \<open>a\<close> behind it has a type and
  fails twice when validated (as it does in the document \<open>one\<close>), and yet the report
  is empty: the entities behind the one without type are not validated.
\<close>

theorem entity_behind_untyped_counterexample:
  "item_entities 4 ex_env ''mixed'' ''http://example.org/''
     = [(''http://example.org/b'',
         Some [triple_of ''http://example.org/b'' (schema ''url'') ''http://example.org/c'']),
        (''http://example.org/a'',
         Some [triple_of ''http://example.org/a'' (rdf ''type'') (schema ''Thing'')])]
   \<and> getQuads [triple_of ''http://example.org/b'' (schema ''url'') ''http://example.org/c'']
        (Some ''http://example.org/b'') (Some (rdf ''type'')) None = []
   \<and> entity_failures ex_env
        (''http://example.org/a'',
         Some [triple_of ''http://example.org/a'' (rdf ''type'') (schema ''Thing'')])
     = Inr [ex_failure ''Schema'' ''name'', ex_failure ''Google'' ''description'']
   \<and> validateSchemaOrg 4 ex_env [''one''] ''http://example.org/''
     = Some (Inr [ex_failure ''Schema'' ''name'', ex_failure ''Google'' ''description''])
   \<and> validateSchemaOrg 4 ex_env [''mixed''] ''http://example.org/'' = Some (Inr [])"
  by (intro conjI; code_simp)

end
